theory Spec2Isabelle
  imports Main "HOL-Library.Word"
begin

unbundle bit_operations_syntax

section \<open>Function secret sharing: the bit-algebra layer of fss.py\<close>

text \<open>
  The module works on torch tensors. A one-dimensional \<open>uint8\<close> tensor is modelled as a
  list of 8-bit words (arithmetic wraps modulo 256, as torch's does), an \<open>int64\<close> scalar
  tensor as a 64-bit word. Every exception the Python can raise is a value of \<open>error\<close>,
  and a function that can raise returns \<open>error + 'a\<close> with \<open>Inl\<close> for the exception.
\<close>

datatype error =
    AssertionError
  | RuntimeError
  | IndexError
  | KeyError
  | ValueError
  | EmptyCryptoPrimitiveStoreError

type_synonym u8 = "8 word"
type_synonym i64 = "64 word"

text \<open>The module constants \<open>\<lambda> = 110\<close> (security parameter) and \<open>n = 32\<close> (bit precision).\<close>

definition lam :: nat where
  "lam = 110"

definition n_prec :: nat where
  "n_prec = 32"

subsection \<open>Convert\<close>

text \<open>
  \<open>bit_pow_lambda = th.flip(2 ** th.arange(\<lambda>), (0,)).to(th.uint8)\<close>: the powers are
  computed on \<open>int64\<close>, flipped, and cast to \<open>uint8\<close>. \<open>bits.dot(bit_pow_lambda)\<close> is the
  \<open>uint8\<close> dot product of two one-dimensional tensors; torch raises when the sizes differ.
\<close>

definition bit_pow_lambda :: "u8 list" where
  "bit_pow_lambda = map ucast (rev (map (\<lambda>i. (2::i64) ^ i) [0..<lam]))"

definition dot :: "u8 list \<Rightarrow> u8 list \<Rightarrow> error + u8" where
  "dot xs ys =
     (if length xs = length ys then Inr (sum_list (map2 (*) xs ys)) else Inl RuntimeError)"

definition Convert :: "u8 list \<Rightarrow> error + u8" where
  "Convert bits = dot bits bit_pow_lambda"

text \<open>
  The reading of the specification: the bits as a base-2 number, most significant bit
  first.
\<close>

fun msb_value :: "u8 list \<Rightarrow> nat" where
  "msb_value [] = 0"
| "msb_value (b # bs) = unat b * 2 ^ length bs + msb_value bs"

subsection \<open>Sequencing of calls that can raise\<close>

definition bindE :: "error + 'a \<Rightarrow> ('a \<Rightarrow> error + 'b) \<Rightarrow> error + 'b" where
  "bindE m f = (case m of Inl e \<Rightarrow> Inl e | Inr v \<Rightarrow> f v)"

text \<open>Indexing a list or tuple, \<open>xs[i]\<close> with \<open>i \<ge> 0\<close>: out of range raises \<open>IndexError\<close>.\<close>

definition nth_err :: "'a list \<Rightarrow> nat \<Rightarrow> error + 'a" where
  "nth_err xs i = (if i < length xs then Inr (xs ! i) else Inl IndexError)"

subsection \<open>The pseudorandom generators G and H\<close>

text \<open>
  \<open>hashlib.sha3_256(enc_str).digest()\<close> is library code, not part of the module: the
  hash is a parameter \<open>h\<close> of every function that expands a seed, mapping the encoded
  string to the digest bytes.
\<close>

type_synonym hash = "string \<Rightarrow> u8 list"

text \<open>\<open>str\<close> of a non-negative Python int: its decimal digits.\<close>

fun str_nat :: "nat \<Rightarrow> string" where
  "str_nat k =
     (if k < 10 then [char_of (48 + k)] else str_nat (k div 10) @ [char_of (48 + k mod 10)])"

fun join :: "string \<Rightarrow> string list \<Rightarrow> string" where
  "join sep [] = []"
| "join sep [x] = x"
| "join sep (x # y # ys) = x @ sep @ join sep (y # ys)"

text \<open>\<open>str(seed.tolist())\<close>: the list display \<open>[0, 1, 1, ...]\<close>.\<close>

definition str_list :: "u8 list \<Rightarrow> string" where
  "str_list seed = ''['' @ join '', '' (map (\<lambda>w. str_nat (unat w)) seed) @ '']''"

text \<open>\<open>int.from_bytes(r, byteorder="big")\<close>.\<close>

definition from_bytes_big :: "u8 list \<Rightarrow> nat" where
  "from_bytes_big r = foldl (\<lambda>acc b. 256 * acc + unat b) 0 r"

text \<open>\<open>bin(k)\<close>: the prefix \<open>0b\<close>, then the binary digits of \<open>k\<close> without leading zeros.\<close>

fun bin_digits :: "nat \<Rightarrow> string" where
  "bin_digits k =
     (if k < 2 then [char_of (48 + k)] else bin_digits (k div 2) @ [char_of (48 + k mod 2)])"

definition bin :: "nat \<Rightarrow> string" where
  "bin k = ''0b'' @ bin_digits k"

text \<open>A slice \<open>s[a:b]\<close> with \<open>0 \<le> a \<le> b\<close>.\<close>

definition slice :: "'a list \<Rightarrow> nat \<Rightarrow> nat \<Rightarrow> 'a list" where
  "slice s a b = take (b - a) (drop a s)"

text \<open>\<open>int(c)\<close> on a digit character, stored into a \<open>uint8\<close> tensor.\<close>

definition int_of_char :: "char \<Rightarrow> u8" where
  "int_of_char c = of_nat (of_char c - 48)"

text \<open>
  \<open>G\<close> and \<open>H\<close> read the module constant \<open>\<lambda>\<close>; it is their first argument \<open>l\<close> here, and
  the key generation and evaluation below call them with \<open>lam\<close>.
\<close>

definition G :: "nat \<Rightarrow> hash \<Rightarrow> u8 list \<Rightarrow> error + u8 list" where
  "G l h seed =
     (if length seed \<noteq> l then Inl AssertionError
      else let enc_str = str_list seed;
               r = h enc_str;
               binary_str = slice (bin (from_bytes_big r)) 2 (2 + (2 * (l + 1)))
           in Inr (map int_of_char binary_str))"

definition H :: "nat \<Rightarrow> hash \<Rightarrow> u8 list \<Rightarrow> error + u8 list" where
  "H l h seed =
     (if length seed \<noteq> l then Inl AssertionError
      else let enc_str = str_list seed;
               r = h enc_str;
               binary_str = slice (bin (from_bytes_big r)) 2 (2 + 2 + (2 * (l + 1)))
           in Inr (map int_of_char binary_str))"

text \<open>
  The bits of a digest as the specification reads them: every byte most significant bit
  first, the bytes in order.
\<close>

definition byte_bits :: "u8 \<Rightarrow> u8 list" where
  "byte_bits w = map (\<lambda>i. if bit w i then 1 else 0) (rev [0..<8])"

definition digest_bits :: "u8 list \<Rightarrow> u8 list" where
  "digest_bits r = concat (map byte_bits r)"

text \<open>
  The binary expansion of a number on \<open>m\<close> digits, most significant first; it relates the
  string \<open>bin\<close> builds to the bits of the digest.
\<close>

definition bits_of :: "nat \<Rightarrow> nat \<Rightarrow> u8 list" where
  "bits_of m k = map (\<lambda>i. if bit k i then 1 else 0) (rev [0..<m])"

subsection \<open>Bit decomposition, split, truth tables\<close>

text \<open>
  \<open>bit_pow_n = th.flip(2 ** th.arange(n), (0,))\<close> on \<open>int64\<close>, and
  \<open>((x & bit_pow_n) > 0).to(th.int8)\<close>: the comparison is the signed one of \<open>int64\<close>. The
  resulting \<open>int8\<close> tensor holds 0 and 1 only and is kept as a list of bytes.
\<close>

definition bit_pow_n :: "i64 list" where
  "bit_pow_n = rev (map (\<lambda>i. (2::i64) ^ i) [0..<n_prec])"

definition bit_decomposition :: "i64 \<Rightarrow> u8 list" where
  "bit_decomposition x = map (\<lambda>p. if 0 < sint (x AND p) then 1 else 0) bit_pow_n"

text \<open>\<open>th.split(x, idx)\<close> with a list of sizes raises unless the sizes sum to the length.\<close>

fun chunks :: "'a list \<Rightarrow> nat list \<Rightarrow> 'a list list" where
  "chunks xs [] = []"
| "chunks xs (k # ks) = take k xs # chunks (drop k xs) ks"

definition split :: "'a list \<Rightarrow> nat list \<Rightarrow> error + 'a list list" where
  "split x idx = (if sum_list idx = length x then Inr (chunks x idx) else Inl RuntimeError)"

text \<open>
  \<open>\<tau>.reshape(2, w)\<close> needs exactly \<open>2 * w\<close> entries; the result is the pair of rows, and
  \<open>\<tau>[a]\<close> with \<open>a\<close> 0 or 1 picks one.
\<close>

definition reshape2 :: "u8 list \<Rightarrow> nat \<Rightarrow> error + u8 list list" where
  "reshape2 v w = (if length v = 2 * w then Inr [take w v, drop w v] else Inl RuntimeError)"

text \<open>
  The bitwise \<open>^\<close> of two one-dimensional tensors: equal sizes, or one of size 1 that is
  broadcast; any other pair of sizes raises.
\<close>

definition txor :: "u8 list \<Rightarrow> u8 list \<Rightarrow> error + u8 list" where
  "txor a b =
     (if length a = length b then Inr (map2 (XOR) a b)
      else if length a = 1 then Inr (map (\<lambda>y. hd a XOR y) b)
      else if length b = 1 then Inr (map (\<lambda>x. x XOR hd b) a)
      else Inl RuntimeError)"

text \<open>A scalar times a tensor.\<close>

definition smul :: "u8 \<Rightarrow> u8 list \<Rightarrow> u8 list" where
  "smul c v = map (\<lambda>x. c * x) v"

text \<open>
  \<open>TruthTableDPF(s, \<alpha>_i)\<close>: a zero table of two rows of \<open>\<lambda> + 1\<close> entries whose row
  \<open>\<alpha>_i\<close> is \<open>concat(s, one)\<close>, flattened. The assignment \<open>Table[\<alpha>_i] = concat(s, one)\<close>
  selects the row first (an index other than 0 and 1 raises \<open>IndexError\<close>; \<open>\<alpha>_i\<close> is a bit
  of \<open>bit_decomposition\<close>) and then copies, which needs \<open>\<lambda> + 1\<close> entries.
\<close>

definition TruthTableDPF :: "u8 list \<Rightarrow> u8 \<Rightarrow> error + u8 list" where
  "TruthTableDPF s a =
     (if a \<noteq> 0 \<and> a \<noteq> 1 then Inl IndexError
      else if length (s @ [1]) \<noteq> lam + 1 then Inl RuntimeError
      else if a = 0 then Inr ((s @ [1]) @ replicate (lam + 1) 0)
      else Inr (replicate (lam + 1) 0 @ (s @ [1])))"

text \<open>
  \<open>TruthTableDIF(s, \<alpha>_i)\<close>: the leaf table has the value \<open>\<alpha>_i\<close> in row \<open>1 - \<alpha>_i\<close>, the
  next table has \<open>concat(s, one)\<close> in row \<open>\<alpha>_i\<close>; they are joined column-wise (each row is
  the leaf entry followed by the next-table row) and flattened. Both row selections come
  before the copy of \<open>concat(s, one)\<close>, which needs \<open>\<lambda> + 1\<close> entries.
\<close>

definition TruthTableDIF :: "u8 list \<Rightarrow> u8 \<Rightarrow> error + u8 list" where
  "TruthTableDIF s a =
     (if a \<noteq> 0 \<and> a \<noteq> 1 then Inl IndexError
      else if length (s @ [1]) \<noteq> lam + 1 then Inl RuntimeError
      else if a = 0 then Inr (([0] @ (s @ [1])) @ ([a] @ replicate (lam + 1) 0))
      else Inr (([a] @ replicate (lam + 1) 0) @ ([0] @ (s @ [1]))))"

section \<open>Distributed point function (class DPF)\<close>

text \<open>
  The arrays \<open>s\<close>, \<open>t\<close> are written once per level and read at the next: the loops carry the
  current entries \<open>s[i]\<close>, \<open>t[i]\<close> as their state. The random draws of \<open>keygen\<close> (the point
  \<open>alpha\<close> and the two rows of \<open>s[0]\<close>) are arguments. The correction word \<open>CW_n\<close> is a
  \<open>uint8\<close> tensor with one entry and is kept as that entry.
\<close>

type_synonym keygen_state = "u8 list \<times> u8 list \<times> u8 \<times> u8"

text \<open>One pass of the loop body of \<open>DPF.keygen\<close> at level \<open>i\<close>, with \<open>a = \<alpha>[i]\<close>.\<close>

definition dpf_keygen_step :: "hash \<Rightarrow> u8 \<Rightarrow> keygen_state \<Rightarrow> error + (u8 list \<times> keygen_state)" where
  "dpf_keygen_step h a st =
     (case st of (s0, s1, t0, t1) \<Rightarrow>
      bindE (G lam h s0) (\<lambda>g0.
      bindE (G lam h s1) (\<lambda>g1.
      bindE (split g0 [lam, 1, lam, 1]) (\<lambda>p0.
      bindE (split g1 [lam, 1, lam, 1]) (\<lambda>p1.
      (case (p0, p1) of
         ([sL_0, _, sR_0, _], [sL_1, _, sR_1, _]) \<Rightarrow>
           bindE (txor sL_0 sL_1) (\<lambda>xL.
           bindE (txor sR_0 sR_1) (\<lambda>xR.
           let s_rand = map2 (+) (smul a xL) (smul (1 - a) xR) in
           bindE (TruthTableDPF s_rand a) (\<lambda>cw_i.
           bindE (txor cw_i g0) (\<lambda>c0.
           bindE (txor c0 g1) (\<lambda>CW_i.
           bindE (txor g0 (smul t0 CW_i)) (\<lambda>tau0.
           bindE (reshape2 tau0 (lam + 1)) (\<lambda>rows0.
           bindE (nth_err rows0 (unat a)) (\<lambda>row0.
           bindE (split row0 [lam, 1]) (\<lambda>q0.
           bindE (txor g1 (smul t1 CW_i)) (\<lambda>tau1.
           bindE (reshape2 tau1 (lam + 1)) (\<lambda>rows1.
           bindE (nth_err rows1 (unat a)) (\<lambda>row1.
           bindE (split row1 [lam, 1]) (\<lambda>q1.
           (case (q0, q1) of
              ([s0', [t0']], [s1', [t1']]) \<Rightarrow> Inr (CW_i, (s0', s1', t0', t1'))
            | _ \<Rightarrow> Inl ValueError))))))))))))))
       | _ \<Rightarrow> Inl ValueError))))))"

text \<open>The loop \<open>for i in range(0, n)\<close> of \<open>keygen\<close>, over the indices still to run.\<close>

fun dpf_keygen_loop :: "hash \<Rightarrow> u8 list \<Rightarrow> nat list \<Rightarrow> keygen_state
    \<Rightarrow> error + (u8 list list \<times> keygen_state)" where
  "dpf_keygen_loop h alpha_bits [] st = Inr ([], st)"
| "dpf_keygen_loop h alpha_bits (i # is) st =
     bindE (nth_err alpha_bits i) (\<lambda>a.
     bindE (dpf_keygen_step h a st) (\<lambda>(CW_i, st').
     bindE (dpf_keygen_loop h alpha_bits is st') (\<lambda>(CW, st'').
     Inr (CW_i # CW, st''))))"

text \<open>
  \<open>(-1) ** t[n, 1]\<close> is taken on \<open>uint8\<close>, where \<open>-1\<close> is 255; \<open>beta.to(th.uint8)\<close> is 1.
\<close>

definition DPF_keygen :: "hash \<Rightarrow> i64 \<Rightarrow> u8 list \<Rightarrow> u8 list
    \<Rightarrow> error + (i64 \<times> u8 list \<times> u8 list \<times> u8 list list \<times> u8)" where
  "DPF_keygen h alpha s_00 s_01 =
     (let alpha_bits = bit_decomposition alpha in
      bindE (dpf_keygen_loop h alpha_bits [0..<n_prec] (s_00, s_01, 0, 1)) (\<lambda>(CW, (s0, s1, t0, t1)).
      bindE (Convert s0) (\<lambda>c0.
      bindE (Convert s1) (\<lambda>c1.
      let CW_n = (- 1) ^ unat t1 * (1 - c0 + c1) in
      Inr (alpha, s_00, s_01, CW, CW_n)))))"

text \<open>One pass of the loop body of \<open>DPF.eval\<close>; \<open>CW\<close> is the tuple \<open>k_b[1].unbind() + (k_b[2],)\<close>.\<close>

definition dpf_eval_step :: "hash \<Rightarrow> u8 \<Rightarrow> u8 list \<Rightarrow> (u8 list \<times> u8) \<Rightarrow> error + (u8 list \<times> u8)" where
  "dpf_eval_step h x_i CW_i st =
     (case st of (s, t) \<Rightarrow>
      bindE (G lam h s) (\<lambda>g.
      bindE (txor g (smul t CW_i)) (\<lambda>tau.
      bindE (reshape2 tau (lam + 1)) (\<lambda>rows.
      bindE (nth_err rows (unat x_i)) (\<lambda>row.
      bindE (split row [lam, 1]) (\<lambda>q.
      (case q of [s', [t']] \<Rightarrow> Inr (s', t') | _ \<Rightarrow> Inl ValueError)))))))"

fun dpf_eval_loop :: "hash \<Rightarrow> u8 list \<Rightarrow> u8 list list \<Rightarrow> nat list \<Rightarrow> (u8 list \<times> u8)
    \<Rightarrow> error + (u8 list \<times> u8)" where
  "dpf_eval_loop h x CW [] st = Inr st"
| "dpf_eval_loop h x CW (i # is) st =
     bindE (nth_err CW i) (\<lambda>CW_i.
     bindE (nth_err x i) (\<lambda>x_i.
     bindE (dpf_eval_step h x_i CW_i st) (\<lambda>st'.
     dpf_eval_loop h x CW is st')))"

text \<open>
  \<open>s[0] = k_b[0]\<close> writes a row of \<open>\<lambda>\<close> entries: the value must have \<open>\<lambda>\<close> entries, or one
  entry that is broadcast.
\<close>

definition set_row :: "nat \<Rightarrow> u8 list \<Rightarrow> error + u8 list" where
  "set_row w v =
     (if length v = w then Inr v
      else if length v = 1 then Inr (replicate w (hd v))
      else Inl RuntimeError)"

text \<open>
  The part of \<open>DPF.eval\<close> up to the \<open>uint8\<close> tensor \<open>Convert(s[n]) + t[n] * CW[n]\<close>, which
  has the shape of \<open>CW[n]\<close>; \<open>b\<close> is the party index, stored into the \<open>uint8\<close> array \<open>t\<close>.
\<close>

definition dpf_eval_value :: "hash \<Rightarrow> nat \<Rightarrow> i64 \<Rightarrow> u8 list \<Rightarrow> u8 list list \<Rightarrow> u8
    \<Rightarrow> error + u8 list" where
  "dpf_eval_value h b x k0 k1 k2 =
     (let x_bits = bit_decomposition x in
      bindE (set_row lam k0) (\<lambda>s_0.
      let CW = k1 @ [[k2]] in
      bindE (dpf_eval_loop h x_bits CW [0..<n_prec] (s_0, of_nat b)) (\<lambda>(s_n, t_n).
      bindE (Convert s_n) (\<lambda>c.
      bindE (nth_err CW n_prec) (\<lambda>CW_n.
      Inr (map (\<lambda>w. c + t_n * w) CW_n))))))"

text \<open>
  \<open>DPF.eval(b, x, *k_b)\<close> called with a Python int \<open>b\<close>: \<open>(-1) ** b\<close> is a Python int and
  the product with the \<open>uint8\<close> tensor stays \<open>uint8\<close>.
\<close>

definition DPF_eval :: "hash \<Rightarrow> nat \<Rightarrow> i64 \<Rightarrow> u8 list \<Rightarrow> u8 list list \<Rightarrow> u8
    \<Rightarrow> error + u8 list" where
  "DPF_eval h b x k0 k1 k2 =
     bindE (dpf_eval_value h b x k0 k1 k2) (\<lambda>v. Inr (map (\<lambda>w. (- 1) ^ b * w) v))"

text \<open>
  \<open>DPF.eval\<close> called with \<open>b = th.IntTensor([i])\<close>, as the plans do: \<open>(-1) ** b\<close> is an
  \<open>int32\<close> tensor, and the product with the \<open>uint8\<close> tensor is promoted to \<open>int32\<close>.
\<close>

definition DPF_eval_tensor :: "hash \<Rightarrow> nat \<Rightarrow> i64 \<Rightarrow> u8 list \<Rightarrow> u8 list list \<Rightarrow> u8
    \<Rightarrow> error + 32 word list" where
  "DPF_eval_tensor h b x k0 k1 k2 =
     bindE (dpf_eval_value h b x k0 k1 k2) (\<lambda>v. Inr (map (\<lambda>w. (- 1) ^ b * ucast w) v))"

section \<open>Distributed interval function (class DIF)\<close>

text \<open>One pass of the loop body of \<open>DIF.keygen\<close> at level \<open>i\<close>, with \<open>a = \<alpha>[i]\<close>.\<close>

definition dif_keygen_step :: "hash \<Rightarrow> u8 \<Rightarrow> keygen_state \<Rightarrow> error + (u8 list \<times> keygen_state)" where
  "dif_keygen_step h a st =
     (case st of (s0, s1, t0, t1) \<Rightarrow>
      bindE (H lam h s0) (\<lambda>h0.
      bindE (H lam h s1) (\<lambda>h1.
      bindE (split h0 [1, 1, lam, 1, lam, 1]) (\<lambda>p0.
      bindE (split h1 [1, 1, lam, 1, lam, 1]) (\<lambda>p1.
      (case (p0, p1) of
         ([_, _, sL_0, _, sR_0, _], [_, _, sL_1, _, sR_1, _]) \<Rightarrow>
           bindE (txor sL_0 sL_1) (\<lambda>xL.
           bindE (txor sR_0 sR_1) (\<lambda>xR.
           let s_rand = map2 (+) (smul a xL) (smul (1 - a) xR) in
           bindE (TruthTableDIF s_rand a) (\<lambda>cw_i.
           bindE (txor cw_i h0) (\<lambda>c0.
           bindE (txor c0 h1) (\<lambda>CW_i.
           bindE (txor h0 (smul t0 CW_i)) (\<lambda>tau0.
           bindE (reshape2 tau0 (lam + 2)) (\<lambda>rows0.
           bindE (nth_err rows0 (unat a)) (\<lambda>row0.
           bindE (split row0 [1, lam, 1]) (\<lambda>q0.
           bindE (txor h1 (smul t1 CW_i)) (\<lambda>tau1.
           bindE (reshape2 tau1 (lam + 2)) (\<lambda>rows1.
           bindE (nth_err rows1 (unat a)) (\<lambda>row1.
           bindE (split row1 [1, lam, 1]) (\<lambda>q1.
           (case (q0, q1) of
              ([_, s0', [t0']], [_, s1', [t1']]) \<Rightarrow> Inr (CW_i, (s0', s1', t0', t1'))
            | _ \<Rightarrow> Inl ValueError))))))))))))))
       | _ \<Rightarrow> Inl ValueError))))))"

fun dif_keygen_loop :: "hash \<Rightarrow> u8 list \<Rightarrow> nat list \<Rightarrow> keygen_state
    \<Rightarrow> error + (u8 list list \<times> keygen_state)" where
  "dif_keygen_loop h alpha_bits [] st = Inr ([], st)"
| "dif_keygen_loop h alpha_bits (i # is) st =
     bindE (nth_err alpha_bits i) (\<lambda>a.
     bindE (dif_keygen_step h a st) (\<lambda>(CW_i, st').
     bindE (dif_keygen_loop h alpha_bits is st') (\<lambda>(CW, st'').
     Inr (CW_i # CW, st''))))"

definition DIF_keygen :: "hash \<Rightarrow> i64 \<Rightarrow> u8 list \<Rightarrow> u8 list
    \<Rightarrow> error + (i64 \<times> u8 list \<times> u8 list \<times> u8 list list)" where
  "DIF_keygen h alpha s_00 s_01 =
     (let alpha_bits = bit_decomposition alpha in
      bindE (dif_keygen_loop h alpha_bits [0..<n_prec] (s_00, s_01, 0, 1)) (\<lambda>(CW, st).
      Inr (alpha, s_00, s_01, CW)))"

text \<open>
  One pass of the loop body of \<open>DIF.eval\<close>: the state is \<open>s[i]\<close>, \<open>t[i]\<close> and the entries
  \<open>FnOutput[0..i-1]\<close> written so far.
\<close>

definition dif_eval_step :: "hash \<Rightarrow> u8 \<Rightarrow> u8 list \<Rightarrow> (u8 list \<times> u8 \<times> u8 list)
    \<Rightarrow> error + (u8 list \<times> u8 \<times> u8 list)" where
  "dif_eval_step h x_i CW_i st =
     (case st of (s, t, FnOutput) \<Rightarrow>
      bindE (H lam h s) (\<lambda>hs.
      bindE (txor hs (smul t CW_i)) (\<lambda>tau.
      bindE (reshape2 tau (lam + 2)) (\<lambda>rows.
      bindE (nth_err rows (unat x_i)) (\<lambda>row.
      bindE (split row [1, lam, 1]) (\<lambda>q.
      (case q of
         [[sigma_leaf], s', [t']] \<Rightarrow> Inr (s', t', FnOutput @ [sigma_leaf])
       | _ \<Rightarrow> Inl ValueError)))))))"

fun dif_eval_loop :: "hash \<Rightarrow> u8 list \<Rightarrow> u8 list list \<Rightarrow> nat list \<Rightarrow> (u8 list \<times> u8 \<times> u8 list)
    \<Rightarrow> error + (u8 list \<times> u8 \<times> u8 list)" where
  "dif_eval_loop h x CW [] st = Inr st"
| "dif_eval_loop h x CW (i # is) st =
     bindE (nth_err CW i) (\<lambda>CW_i.
     bindE (nth_err x i) (\<lambda>x_i.
     bindE (dif_eval_step h x_i CW_i st) (\<lambda>st'.
     dif_eval_loop h x CW is st')))"

text \<open>
  \<open>FnOutput.sum() % 2\<close>: torch sums a \<open>uint8\<close> tensor in \<open>int64\<close>, so the sum of the
  \<open>n + 1\<close> entries does not wrap. \<open>b\<close> is the party index (a Python int, or the entry of
  \<open>th.IntTensor([i])\<close>), stored into the \<open>uint8\<close> array \<open>t\<close>.
\<close>

definition DIF_eval :: "hash \<Rightarrow> nat \<Rightarrow> i64 \<Rightarrow> u8 list \<Rightarrow> u8 list list \<Rightarrow> error + i64" where
  "DIF_eval h b x k0 k1 =
     (let x_bits = bit_decomposition x in
      bindE (set_row lam k0) (\<lambda>s_0.
      let CW = k1 in
      bindE (dif_eval_loop h x_bits CW [0..<n_prec] (s_0, of_nat b, [])) (\<lambda>(s_n, t_n, FnOutput).
      let FnOutput = FnOutput @ [t_n] in
      Inr (of_nat (sum_list (map unat FnOutput) mod 2)))))"

section \<open>The primitive store and the plans run by the parties\<close>

text \<open>
  A primitive is a tuple: \<open>(alpha, s_0, CW, CW_n)\<close> in the queue \<open>fss_eq\<close>,
  \<open>(alpha, s_0, CW)\<close> in \<open>fss_comp\<close>, \<open>(xor_share, add_share)\<close> in \<open>xor_add_couple\<close>. The
  queues are Python lists and do not fix which tuple they hold. The shares \<open>alpha\<close>,
  \<open>xor_share\<close>, \<open>add_share\<close> and the shares of the operands are \<open>int64\<close> tensors.
\<close>

datatype primitive =
    FssEq i64 "u8 list" "u8 list list" u8
  | FssComp i64 "u8 list" "u8 list list"
  | XorAdd i64 i64

record crypto_store =
  fss_eq :: "primitive list"
  fss_comp :: "primitive list"
  xor_add_couple :: "primitive list"

text \<open>The dictionary lookup \<open>{...}[type_op]\<close> of \<open>get_keys\<close>.\<close>

definition primitive_stack :: "crypto_store \<Rightarrow> string \<Rightarrow> error + primitive list" where
  "primitive_stack store type_op =
     (if type_op = ''eq'' then Inr (fss_eq store)
      else if type_op = ''comp'' then Inr (fss_comp store)
      else if type_op = ''xor_add'' then Inr (xor_add_couple store)
      else Inl KeyError)"

text \<open>
  \<open>primitive_stack.pop(0)\<close> changes the list held by the store; the model writes the
  shortened list back to the queue it was taken from.
\<close>

definition put_stack :: "crypto_store \<Rightarrow> string \<Rightarrow> primitive list \<Rightarrow> crypto_store" where
  "put_stack store type_op stack =
     (if type_op = ''eq'' then store\<lparr>fss_eq := stack\<rparr>
      else if type_op = ''comp'' then store\<lparr>fss_comp := stack\<rparr>
      else if type_op = ''xor_add'' then store\<lparr>xor_add_couple := stack\<rparr>
      else store)"

text \<open>
  \<open>get_keys(worker, type_op, remove)\<close> on the store of the worker. The result is the
  value or the exception, together with the store after the call.
\<close>

definition get_keys :: "crypto_store \<Rightarrow> string \<Rightarrow> bool \<Rightarrow> (error + primitive) \<times> crypto_store" where
  "get_keys store type_op remove =
     (case primitive_stack store type_op of
        Inl e \<Rightarrow> (Inl e, store)
      | Inr stack \<Rightarrow>
          (if remove then
             (case stack of
                [] \<Rightarrow> (Inl EmptyCryptoPrimitiveStoreError, store)
              | p # rest \<Rightarrow> (Inr p, put_stack store type_op rest))
           else
             (case stack of
                [] \<Rightarrow> (Inl EmptyCryptoPrimitiveStoreError, store)
              | p # rest \<Rightarrow> (Inr p, store))))"

text \<open>The first component of a primitive, bound by \<open>alpha, s_0, *CW = ...\<close>.\<close>

fun first_of :: "primitive \<Rightarrow> i64" where
  "first_of (FssEq alpha s_0 CW CW_n) = alpha"
| "first_of (FssComp alpha s_0 CW) = alpha"
| "first_of (XorAdd xor_share add_share) = xor_share"

definition mask_builder :: "crypto_store \<Rightarrow> i64 \<Rightarrow> i64 \<Rightarrow> string \<Rightarrow> (error + i64) \<times> crypto_store" where
  "mask_builder store x1 x2 type_op =
     (let x = x1 - x2 in
      case get_keys store type_op False of
        (Inl e, store') \<Rightarrow> (Inl e, store')
      | (Inr p, store') \<Rightarrow> (Inr (x + first_of p), store'))"

text \<open>
  \<open>eq_eval_plan\<close> passes \<open>s_0, *CW\<close> to \<open>DPF.eval\<close>, which reads \<open>k_b[0]\<close>, \<open>k_b[1]\<close> and
  \<open>k_b[2]\<close>: a tuple with fewer components raises at the missing one, after \<open>s[0]\<close> is set.
\<close>

definition eq_eval_plan :: "hash \<Rightarrow> crypto_store \<Rightarrow> nat \<Rightarrow> i64
    \<Rightarrow> (error + 32 word list) \<times> crypto_store" where
  "eq_eval_plan h store b x_masked =
     (case get_keys store ''eq'' True of
        (Inl e, store') \<Rightarrow> (Inl e, store')
      | (Inr (FssEq alpha s_0 CW CW_n), store') \<Rightarrow>
          (DPF_eval_tensor h b x_masked s_0 CW CW_n, store')
      | (Inr (FssComp alpha s_0 CW), store') \<Rightarrow>
          (bindE (set_row lam s_0) (\<lambda>_. Inl IndexError), store')
      | (Inr (XorAdd xor_share add_share), store') \<Rightarrow> (Inl IndexError, store'))"

text \<open>\<open>DIF.eval\<close> reads \<open>k_b[0]\<close> and \<open>k_b[1]\<close> only.\<close>

definition comp_eval_plan :: "hash \<Rightarrow> crypto_store \<Rightarrow> nat \<Rightarrow> i64
    \<Rightarrow> (error + i64) \<times> crypto_store" where
  "comp_eval_plan h store b x_masked =
     (case get_keys store ''comp'' True of
        (Inl e, store') \<Rightarrow> (Inl e, store')
      | (Inr (FssEq alpha s_0 CW CW_n), store') \<Rightarrow> (DIF_eval h b x_masked s_0 CW, store')
      | (Inr (FssComp alpha s_0 CW), store') \<Rightarrow> (DIF_eval h b x_masked s_0 CW, store')
      | (Inr (XorAdd xor_share add_share), store') \<Rightarrow> (Inl IndexError, store'))"

text \<open>\<open>xor_share, add_share = ...\<close> needs a tuple of exactly two components.\<close>

definition xor_add_convert_1 :: "crypto_store \<Rightarrow> i64 \<Rightarrow> (error + i64) \<times> crypto_store" where
  "xor_add_convert_1 store x =
     (case get_keys store ''xor_add'' False of
        (Inl e, store') \<Rightarrow> (Inl e, store')
      | (Inr (XorAdd xor_share add_share), store') \<Rightarrow> (Inr (x XOR xor_share), store')
      | (Inr _, store') \<Rightarrow> (Inl ValueError, store'))"

text \<open>
  The shares of a couple and the masked bit are \<open>int64\<close> values. With zero-dimensional
  shares the product with the one-entry \<open>IntTensor\<close> makes the result an \<open>int32\<close> tensor; it
  holds the same value modulo \<open>2 ^ 32\<close>, which is all that the reconstruction reads.
\<close>

definition xor_add_convert_2 :: "crypto_store \<Rightarrow> nat \<Rightarrow> i64 \<Rightarrow> (error + i64) \<times> crypto_store" where
  "xor_add_convert_2 store b x =
     (case get_keys store ''xor_add'' True of
        (Inl e, store') \<Rightarrow> (Inl e, store')
      | (Inr (XorAdd xor_share add_share), store') \<Rightarrow>
          (Inr (add_share * (1 - 2 * x) + x * of_nat b), store')
      | (Inr _, store') \<Rightarrow> (Inl ValueError, store'))"

section \<open>The workflow fss_op\<close>

text \<open>
  The orchestrator asks every location in turn to run a plan on its own store and
  collects the answers; an exception ends the workflow, and what the locations did to
  their stores before it stays done. \<open>locations\<close> is the list of the stores of the
  locations; \<open>ws ! i\<close> is only read for the indices of that list.
\<close>

fun run_plans :: "(nat \<Rightarrow> crypto_store \<Rightarrow> (error + 'a) \<times> crypto_store) \<Rightarrow> nat list
    \<Rightarrow> crypto_store list \<Rightarrow> (error + 'a list) \<times> crypto_store list" where
  "run_plans plan [] ws = (Inr [], ws)"
| "run_plans plan (i # is) ws =
     (case plan i (ws ! i) of
        (Inl e, w') \<Rightarrow> (Inl e, ws[i := w'])
      | (Inr share, w') \<Rightarrow>
          (case run_plans plan is (ws[i := w']) of
             (Inl e, ws') \<Rightarrow> (Inl e, ws')
           | (Inr shares, ws') \<Rightarrow> (Inr (share # shares), ws')))"

text \<open>
  The first plan, \<open>#fss_{type_op}_plan_1\<close>, on the shares \<open>x1.child[location.id]\<close> and
  \<open>x2.child[location.id]\<close> (the shares are listed in the order of the locations; a missing
  one is a \<open>KeyError\<close>). Plans are registered for \<open>eq\<close> and \<open>comp\<close> only; a request for
  another tag fails, which is reported as \<open>KeyError\<close>.
\<close>

definition plan_1 :: "i64 list \<Rightarrow> i64 list \<Rightarrow> string \<Rightarrow> nat \<Rightarrow> crypto_store
    \<Rightarrow> (error + i64) \<times> crypto_store" where
  "plan_1 x1 x2 type_op i w =
     (case nth_err x1 i of
        Inl e \<Rightarrow> (Inl KeyError, w)
      | Inr a \<Rightarrow>
          (case nth_err x2 i of
             Inl e \<Rightarrow> (Inl KeyError, w)
           | Inr b \<Rightarrow>
               if type_op = ''eq'' \<or> type_op = ''comp'' then mask_builder w a b type_op
               else (Inl KeyError, w)))"

text \<open>
  \<open>sum(shares) % 2 ** n\<close> on \<open>int64\<close> tensors: the sum wraps, and the remainder by a
  positive number is not negative.
\<close>

definition mask_value_of :: "i64 list \<Rightarrow> i64" where
  "mask_value_of shares = of_int (sint (sum_list shares) mod 2 ^ n_prec)"

text \<open>
  The rounds after the mask is built. The values of the final share tensors are returned
  as integers, one list of entries for each location.
\<close>

definition fss_op :: "hash \<Rightarrow> crypto_store list \<Rightarrow> i64 list \<Rightarrow> i64 list \<Rightarrow> string
    \<Rightarrow> (error + int list list) \<times> crypto_store list" where
  "fss_op h locations x1 x2 type_op =
     (let idx = [0..<length locations] in
      case run_plans (plan_1 x1 x2 type_op) idx locations of
        (Inl e, ws1) \<Rightarrow> (Inl e, ws1)
      | (Inr shares, ws1) \<Rightarrow>
          let mask_value = mask_value_of shares in
          if type_op = ''comp'' then
            (case run_plans (\<lambda>i w. comp_eval_plan h w i mask_value) idx ws1 of
               (Inl e, ws2) \<Rightarrow> (Inl e, ws2)
             | (Inr prev_shares, ws2) \<Rightarrow>
                 (case run_plans (\<lambda>i w. xor_add_convert_1 w (prev_shares ! i)) idx ws2 of
                    (Inl e, ws3) \<Rightarrow> (Inl e, ws3)
                  | (Inr shares3, ws3) \<Rightarrow>
                      (case bindE (nth_err shares3 0) (\<lambda>m0.
                            bindE (nth_err shares3 1) (\<lambda>m1. Inr (m0 XOR m1))) of
                         Inl e \<Rightarrow> (Inl e, ws3)
                       | Inr masked_value \<Rightarrow>
                           (case run_plans (\<lambda>i w. xor_add_convert_2 w i masked_value) idx ws3 of
                              (Inl e, ws4) \<Rightarrow> (Inl e, ws4)
                            | (Inr shares4, ws4) \<Rightarrow>
                                (Inr (map (\<lambda>v. [sint v]) shares4), ws4)))))
          else
            (case run_plans (\<lambda>i w. eq_eval_plan h w i mask_value) idx ws1 of
               (Inl e, ws2) \<Rightarrow> (Inl e, ws2)
             | (Inr shares2, ws2) \<Rightarrow> (Inr (map (map sint) shares2), ws2)))"

definition eq :: "hash \<Rightarrow> crypto_store list \<Rightarrow> i64 list \<Rightarrow> i64 list
    \<Rightarrow> (error + int list list) \<times> crypto_store list" where
  "eq h locations x1 x2 = fss_op h locations x1 x2 ''eq''"

definition le :: "hash \<Rightarrow> crypto_store list \<Rightarrow> i64 list \<Rightarrow> i64 list
    \<Rightarrow> (error + int list list) \<times> crypto_store list" where
  "le h locations x1 x2 = fss_op h locations x1 x2 ''comp''"

text \<open>
  Modelled from the spec: the additive sharing tensor that wraps the shares is not part
  of the module. An additive sharing of a value is a list of shares, one for each party,
  and the value is recovered as their sum modulo \<open>M = 2 ^ n\<close>.
\<close>

definition recover :: "int list \<Rightarrow> int" where
  "recover shares = sum_list shares mod 2 ^ n_prec"

section \<open>Closed forms used in the proofs\<close>

text \<open>
  The functions below are not in the source: they name what one level of the tree
  computes when no check fails, so that the proofs can speak about it. \<open>pick a w v\<close> is
  the row \<open>a\<close> of \<open>v.reshape(2, w)\<close>, \<open>tau_of g t CW\<close> is \<open>g ^ (t * CW)\<close>, and
  \<open>compl t0 t1\<close> says that the control bits of the two parties are 0 and 1 in some order.
\<close>

definition pick :: "u8 \<Rightarrow> nat \<Rightarrow> u8 list \<Rightarrow> u8 list" where
  "pick a w v = (if a = 0 then take w v else drop w v)"

definition tau_of :: "u8 list \<Rightarrow> u8 \<Rightarrow> u8 list \<Rightarrow> u8 list" where
  "tau_of g t CW = map2 (XOR) g (smul t CW)"

definition dpf_next_s :: "u8 \<Rightarrow> u8 list \<Rightarrow> u8 \<Rightarrow> u8 list \<Rightarrow> u8 list" where
  "dpf_next_s a g t CW = take lam (pick a (lam + 1) (tau_of g t CW))"

definition dpf_next_t :: "u8 \<Rightarrow> u8 list \<Rightarrow> u8 \<Rightarrow> u8 list \<Rightarrow> u8" where
  "dpf_next_t a g t CW = pick a (lam + 1) (tau_of g t CW) ! lam"

definition dpf_s_rand :: "u8 \<Rightarrow> u8 list \<Rightarrow> u8 list \<Rightarrow> u8 list" where
  "dpf_s_rand a g0 g1 =
     map2 (+) (smul a (map2 (XOR) (take lam g0) (take lam g1)))
       (smul (1 - a) (map2 (XOR) (take lam (drop (lam + 1) g0)) (take lam (drop (lam + 1) g1))))"

definition dpf_table :: "u8 \<Rightarrow> u8 list \<Rightarrow> u8 list" where
  "dpf_table a s =
     (if a = 0 then (s @ [1]) @ replicate (lam + 1) 0 else replicate (lam + 1) 0 @ (s @ [1]))"

definition dpf_CW :: "u8 \<Rightarrow> u8 list \<Rightarrow> u8 list \<Rightarrow> u8 list" where
  "dpf_CW a g0 g1 = map2 (XOR) (map2 (XOR) (dpf_table a (dpf_s_rand a g0 g1)) g0) g1"

definition dpf_step_result :: "u8 \<Rightarrow> u8 list \<Rightarrow> u8 list \<Rightarrow> u8 \<Rightarrow> u8 \<Rightarrow> u8 list \<times> keygen_state" where
  "dpf_step_result a g0 g1 t0 t1 =
     (dpf_CW a g0 g1,
      (dpf_next_s a g0 t0 (dpf_CW a g0 g1), dpf_next_s a g1 t1 (dpf_CW a g0 g1),
       dpf_next_t a g0 t0 (dpf_CW a g0 g1), dpf_next_t a g1 t1 (dpf_CW a g0 g1)))"

definition compl :: "u8 \<Rightarrow> u8 \<Rightarrow> bool" where
  "compl t0 t1 \<longleftrightarrow> (t0 = 0 \<and> t1 = 1) \<or> (t0 = 1 \<and> t1 = 0)"

section \<open>Verification\<close>

subsection \<open>Facts about Convert\<close>

lemma ucast_pow2_i64_u8: "(ucast ((2::i64) ^ i) :: u8) = 2 ^ i"
  by (rule bit_word_eqI) (auto simp add: bit_ucast_iff bit_exp_iff)

lemma dot_pow_msb:
  "sum_list (map2 (*) bits (map (\<lambda>i. (2::u8) ^ i) (rev [0..<length bits])))
     = of_nat (msb_value bits)"
proof (induction bits)
  case Nil
  show ?case by simp
next
  case (Cons b bs)
  then show ?case by (simp add: mult.commute)
qed

lemma bit_pow_lambda_pow: "bit_pow_lambda = map (\<lambda>i. (2::u8) ^ i) (rev [0..<lam])"
  by (simp add: bit_pow_lambda_def rev_map ucast_pow2_i64_u8 comp_def)

lemma length_bit_pow_lambda: "length bit_pow_lambda = lam"
  by (simp add: bit_pow_lambda_def)

lemma Convert_msb:
  assumes "length bits = lam"
  shows "Convert bits = Inr (of_nat (msb_value bits))"
  using assms dot_pow_msb [of bits]
  by (simp add: Convert_def dot_def length_bit_pow_lambda bit_pow_lambda_pow)

lemma msb_value_append: "msb_value (xs @ ys) = msb_value xs * 2 ^ length ys + msb_value ys"
  by (induction xs) (simp_all add: power_add algebra_simps)

lemma msb_value_replicate_0: "msb_value (replicate k 0) = 0"
  by (induction k) simp_all

text \<open>
  Claim C5, as the code has it. For every bit vector of \<open>\<lambda>\<close> entries, \<open>Convert\<close> returns
  the number read most significant bit first, reduced modulo \<open>2 ^ 8\<close>: the weights and the
  dot product are \<open>uint8\<close>, so only the last eight bits contribute.
\<close>

theorem Convert_mod_256:
  "length bits = lam \<Longrightarrow> \<exists>v. Convert bits = Inr v \<and> unat v = msb_value bits mod 2 ^ 8"
  by (simp add: Convert_msb unat_of_nat)

theorem Convert_mod_256_witness:
  "length (replicate 101 0 @ [1, 0, 1] @ replicate 6 (0::u8)) = lam
   \<and> (\<exists>v. Convert (replicate 101 0 @ [1, 0, 1] @ replicate 6 0) = Inr v
        \<and> unat v = msb_value (replicate 101 0 @ [1, 0, 1] @ replicate 6 0) mod 2 ^ 8)"
  using Convert_mod_256 [of "replicate 101 0 @ [1, 0, 1] @ replicate 6 0"]
  by (simp add: lam_def)

text \<open>
  Claim C5 as stated fails: the \<open>\<lambda>\<close>-bit vector whose only set bit has weight \<open>2 ^ 8\<close> reads
  as 256, which is 256 modulo \<open>M = 2 ^ 32\<close>, and \<open>Convert\<close> returns 0.
\<close>

theorem Convert_not_mod_M:
  "length (replicate 101 0 @ [1] @ replicate 8 (0::u8)) = lam
   \<and> Convert (replicate 101 0 @ [1] @ replicate 8 0) = Inr 0
   \<and> msb_value (replicate 101 0 @ [1] @ replicate 8 0) mod 2 ^ n_prec = 256"
  by (simp add: Convert_msb lam_def n_prec_def msb_value_append msb_value_replicate_0)

subsection \<open>The primitive store\<close>

text \<open>
  Claim C8. For each of the queue types \<open>eq\<close>, \<open>comp\<close> and \<open>xor_add\<close>, \<open>get_keys\<close> on an
  empty queue raises \<open>EmptyCryptoPrimitiveStoreError\<close>, when it reads (\<open>remove=False\<close>) and
  when it pops (\<open>remove=True\<close>), and the store after the call is the store before it.
\<close>

theorem get_keys_empty:
  assumes "type_op \<in> {''eq'', ''comp'', ''xor_add''}"
    and "primitive_stack store type_op = Inr []"
  shows "get_keys store type_op False = (Inl EmptyCryptoPrimitiveStoreError, store)
       \<and> get_keys store type_op True = (Inl EmptyCryptoPrimitiveStoreError, store)"
  using assms by (simp add: get_keys_def)

theorem get_keys_empty_witness:
  "''comp'' \<in> {''eq'', ''comp'', ''xor_add''}
   \<and> primitive_stack \<lparr>fss_eq = [XorAdd 1 2], fss_comp = [], xor_add_couple = [XorAdd 3 4]\<rparr> ''comp'' = Inr []
   \<and> get_keys \<lparr>fss_eq = [XorAdd 1 2], fss_comp = [], xor_add_couple = [XorAdd 3 4]\<rparr> ''comp'' False
       = (Inl EmptyCryptoPrimitiveStoreError, \<lparr>fss_eq = [XorAdd 1 2], fss_comp = [], xor_add_couple = [XorAdd 3 4]\<rparr>)
   \<and> get_keys \<lparr>fss_eq = [XorAdd 1 2], fss_comp = [], xor_add_couple = [XorAdd 3 4]\<rparr> ''comp'' True
       = (Inl EmptyCryptoPrimitiveStoreError, \<lparr>fss_eq = [XorAdd 1 2], fss_comp = [], xor_add_couple = [XorAdd 3 4]\<rparr>)"
  using get_keys_empty [of "''comp''" "\<lparr>fss_eq = [XorAdd 1 2], fss_comp = [], xor_add_couple = [XorAdd 3 4]\<rparr>"]
  by (simp add: primitive_stack_def)

lemma get_keys_peek: "snd (get_keys store type_op False) = store"
  by (simp add: get_keys_def split: sum.splits list.splits)

text \<open>
  Claim C9. Whatever the shares and the operation type, the store after \<open>mask_builder\<close> is
  the store before it: the head primitive is read and stays in its queue. When the queue
  has a head, the result is the masked share \<open>x1 - x2 + alpha\<close> built from it.
\<close>

theorem mask_builder_frame:
  "snd (mask_builder store x1 x2 type_op) = store
   \<and> (\<forall>p ps. primitive_stack store type_op = Inr (p # ps)
        \<longrightarrow> fst (mask_builder store x1 x2 type_op) = Inr (x1 - x2 + first_of p))"
  by (auto simp add: mask_builder_def get_keys_def Let_def split: sum.splits list.splits prod.splits)

theorem mask_builder_frame_witness:
  "snd (mask_builder \<lparr>fss_eq = [], fss_comp = [FssComp 7 [] [], FssComp 8 [] []], xor_add_couple = []\<rparr> 5 3 ''comp'')
     = \<lparr>fss_eq = [], fss_comp = [FssComp 7 [] [], FssComp 8 [] []], xor_add_couple = []\<rparr>
   \<and> primitive_stack \<lparr>fss_eq = [], fss_comp = [FssComp 7 [] [], FssComp 8 [] []], xor_add_couple = []\<rparr> ''comp''
       = Inr (FssComp 7 [] [] # [FssComp 8 [] []])
   \<and> fst (mask_builder \<lparr>fss_eq = [], fss_comp = [FssComp 7 [] [], FssComp 8 [] []], xor_add_couple = []\<rparr> 5 3 ''comp'')
       = Inr 9"
  using mask_builder_frame [of "\<lparr>fss_eq = [], fss_comp = [FssComp 7 [] [], FssComp 8 [] []], xor_add_couple = []\<rparr>" 5 3 "''comp''"]
  by (simp add: primitive_stack_def)

subsection \<open>Conversion of an xor share into an additive share\<close>

lemma sint_tb32: "take_bit 32 (sint (a::i64)) = take_bit 32 (uint a)"
  by (simp add: sint_uint take_bit_signed_take_bit)

lemma uint_add_tb32: "take_bit 32 (uint ((a::i64) + b)) = take_bit 32 (uint a + uint b)"
proof -
  have "uint (a + b) = take_bit 64 (uint a + uint b)"
    by (simp add: uint_word_ariths take_bit_eq_mod)
  then show ?thesis by simp
qed

lemma uint_one_minus_tb32: "take_bit 32 (uint (1 - (a::i64))) = take_bit 32 (1 - uint a)"
proof -
  have "uint (1 - a) = take_bit 64 (1 - uint a)"
    by (simp add: uint_word_ariths take_bit_eq_mod)
  then show ?thesis by simp
qed

lemma sint_add_mod: "(sint (a::i64) + sint (b::i64)) mod 2 ^ 32 = uint (a + b) mod 2 ^ 32"
proof -
  have "take_bit 32 (sint a + sint b) = take_bit 32 (take_bit 32 (sint a) + take_bit 32 (sint b))"
    by (simp add: take_bit_add)
  also have "\<dots> = take_bit 32 (take_bit 32 (uint a) + take_bit 32 (uint b))"
    by (simp only: sint_tb32)
  also have "\<dots> = take_bit 32 (uint a + uint b)"
    by (simp add: take_bit_add)
  also have "\<dots> = take_bit 32 (uint (a + b))"
    by (simp only: uint_add_tb32)
  finally show ?thesis by (simp add: take_bit_eq_mod)
qed

lemma recover_pair: "recover [sint (a::i64), sint b] = uint (a + b) mod 2 ^ 32"
  using sint_add_mod [of a b] by (simp add: recover_def n_prec_def)

lemma b2a_sum:
  fixes A r v :: i64
  assumes A: "uint A mod 2 ^ 32 = uint r" and r: "r \<in> {0, 1}" and v: "v \<in> {0, 1}"
  shows "uint (A * (1 - 2 * (v XOR r)) + (v XOR r)) mod 2 ^ 32 = uint v"
proof (cases "v = r")
  case True
  then show ?thesis using A by simp
next
  case False
  with r v have mu: "v XOR r = 1" by auto
  have "A * (1 - 2 * 1) + 1 = 1 - A" by simp
  then have "uint (A * (1 - 2 * (v XOR r)) + (v XOR r)) mod 2 ^ 32 = take_bit 32 (uint (1 - A))"
    by (simp only: mu take_bit_eq_mod)
  also have "\<dots> = (1 - uint A) mod 2 ^ 32"
    using uint_one_minus_tb32 [of A] by (simp only: take_bit_eq_mod)
  also have "\<dots> = (1 - uint A mod 2 ^ 32) mod 2 ^ 32"
    by (simp only: mod_diff_right_eq)
  also have "\<dots> = (1 - uint r) mod 2 ^ 32"
    by (simp only: A)
  also have "\<dots> = uint v"
    using r v False by auto
  finally show ?thesis .
qed

text \<open>
  Claim C4. Let the two parties hold xor shares \<open>b0\<close>, \<open>b1\<close> of a bit \<open>v\<close> and, at the head of
  their \<open>xor_add_couple\<close> queues, the two halves of a couple whose xor shares are bits and
  satisfy \<open>xor0 XOR xor1 = (add0 + add1) mod M\<close>. Then \<open>xor_add_convert_1\<close> returns the masked
  shares and leaves the stores as they are; with \<open>\<mu>\<close> the xor of the two masked shares,
  \<open>xor_add_convert_2\<close> consumes the couples and returns \<open>add_share * (1 - 2 * \<mu>) + b * \<mu>\<close>
  for party \<open>b\<close>; and the two outputs sum to \<open>v\<close> modulo \<open>M\<close>.
\<close>

theorem b2a_conversion:
  assumes couple0: "xor_add_couple w0 = XorAdd xor0 add0 # r0"
    and couple1: "xor_add_couple w1 = XorAdd xor1 add1 # r1"
    and xbits: "xor0 \<in> {0, 1}" "xor1 \<in> {0, 1}"
    and rel: "unat (xor0 XOR xor1) = unat (add0 + add1) mod 2 ^ n_prec"
    and v: "v \<in> {0, 1}" "b0 XOR b1 = v"
  shows "\<exists>m0 m1 o0 o1.
           xor_add_convert_1 w0 b0 = (Inr m0, w0)
         \<and> xor_add_convert_1 w1 b1 = (Inr m1, w1)
         \<and> xor_add_convert_2 w0 0 (m0 XOR m1) = (Inr o0, w0\<lparr>xor_add_couple := r0\<rparr>)
         \<and> xor_add_convert_2 w1 1 (m0 XOR m1) = (Inr o1, w1\<lparr>xor_add_couple := r1\<rparr>)
         \<and> recover [sint o0, sint o1] = uint v"
proof -
  define r where "r = xor0 XOR xor1"
  define mu where "mu = (b0 XOR xor0) XOR (b1 XOR xor1)"
  have "mu = (b0 XOR b1) XOR (xor0 XOR xor1)"
    unfolding mu_def by (simp only: xor.assoc xor.left_commute [of xor0])
  then have mu_eq: "mu = v XOR r"
    by (simp only: v(2) r_def)
  have rbit: "r \<in> {0, 1}"
    using xbits unfolding r_def by auto
  have c1: "xor_add_convert_1 w0 b0 = (Inr (b0 XOR xor0), w0)"
       "xor_add_convert_1 w1 b1 = (Inr (b1 XOR xor1), w1)"
    using couple0 couple1
    by (simp_all add: xor_add_convert_1_def get_keys_def primitive_stack_def)
  have c2: "xor_add_convert_2 w0 0 mu = (Inr (add0 * (1 - 2 * mu)), w0\<lparr>xor_add_couple := r0\<rparr>)"
       "xor_add_convert_2 w1 1 mu = (Inr (add1 * (1 - 2 * mu) + mu), w1\<lparr>xor_add_couple := r1\<rparr>)"
    using couple0 couple1
    by (simp_all add: xor_add_convert_2_def get_keys_def primitive_stack_def put_stack_def)
  have "uint r = int (unat r)"
    by simp
  also have "\<dots> = int (unat (add0 + add1) mod 2 ^ 32)"
    using rel by (simp only: r_def n_prec_def)
  also have "\<dots> = uint (add0 + add1) mod 2 ^ 32"
    by (simp add: zmod_int)
  finally have A: "uint (add0 + add1) mod 2 ^ 32 = uint r"
    by simp
  have "add0 * (1 - 2 * mu) + (add1 * (1 - 2 * mu) + mu) = (add0 + add1) * (1 - 2 * (v XOR r)) + (v XOR r)"
    by (simp only: mu_eq distrib_right add.assoc)
  then have "uint (add0 * (1 - 2 * mu) + (add1 * (1 - 2 * mu) + mu)) mod 2 ^ 32 = uint v"
    using b2a_sum [OF A rbit v(1)] by (simp only:)
  then have "recover [sint (add0 * (1 - 2 * mu)), sint (add1 * (1 - 2 * mu) + mu)] = uint v"
    by (simp only: recover_pair)
  with c1 c2 show ?thesis unfolding mu_def by blast
qed

theorem b2a_conversion_witness:
  "xor_add_couple \<lparr>fss_eq = [], fss_comp = [], xor_add_couple = [XorAdd 1 4294967301]\<rparr>
      = XorAdd 1 4294967301 # []
   \<and> xor_add_couple \<lparr>fss_eq = [], fss_comp = [], xor_add_couple = [XorAdd 0 (- 4)]\<rparr> = XorAdd 0 (- 4) # []
   \<and> (1::i64) \<in> {0, 1} \<and> (0::i64) \<in> {0, 1}
   \<and> unat ((1::i64) XOR 0) = unat ((4294967301::i64) + (- 4)) mod 2 ^ n_prec
   \<and> (1::i64) XOR 0 = 1
   \<and> (\<exists>m0 m1 o0 o1.
         xor_add_convert_1 \<lparr>fss_eq = [], fss_comp = [], xor_add_couple = [XorAdd 1 4294967301]\<rparr> 1
            = (Inr m0, \<lparr>fss_eq = [], fss_comp = [], xor_add_couple = [XorAdd 1 4294967301]\<rparr>)
       \<and> xor_add_convert_1 \<lparr>fss_eq = [], fss_comp = [], xor_add_couple = [XorAdd 0 (- 4)]\<rparr> 0
            = (Inr m1, \<lparr>fss_eq = [], fss_comp = [], xor_add_couple = [XorAdd 0 (- 4)]\<rparr>)
       \<and> xor_add_convert_2 \<lparr>fss_eq = [], fss_comp = [], xor_add_couple = [XorAdd 1 4294967301]\<rparr> 0 (m0 XOR m1)
            = (Inr o0, \<lparr>fss_eq = [], fss_comp = [], xor_add_couple = []\<rparr>)
       \<and> xor_add_convert_2 \<lparr>fss_eq = [], fss_comp = [], xor_add_couple = [XorAdd 0 (- 4)]\<rparr> 1 (m0 XOR m1)
            = (Inr o1, \<lparr>fss_eq = [], fss_comp = [], xor_add_couple = []\<rparr>)
       \<and> recover [sint o0, sint o1] = uint (1::i64))"
  using b2a_conversion [of "\<lparr>fss_eq = [], fss_comp = [], xor_add_couple = [XorAdd 1 4294967301]\<rparr>"
      1 4294967301 "[]" "\<lparr>fss_eq = [], fss_comp = [], xor_add_couple = [XorAdd 0 (- 4)]\<rparr>"
      0 "- 4" "[]" 1 1 0]
  by (simp add: n_prec_def)

subsection \<open>The generators G and H\<close>

declare bin_digits.simps [simp del]
declare str_nat.simps [simp del]

lemma slice_bin: "slice (bin k) 2 b = take (b - 2) (bin_digits k)"
  by (simp add: slice_def bin_def)

lemma G_unfold:
  "length seed = l \<Longrightarrow>
     G l h seed = Inr (map int_of_char (take (2 * (l + 1)) (bin_digits (from_bytes_big (h (str_list seed))))))"
  by (simp add: G_def Let_def slice_bin)

lemma H_unfold:
  "length seed = l \<Longrightarrow>
     H l h seed = Inr (map int_of_char (take (2 + 2 * (l + 1)) (bin_digits (from_bytes_big (h (str_list seed))))))"
proof -
  have e: "2 + 2 + 2 * (l + 1) - 2 = 2 + 2 * (l + 1)"
    by arith
  assume "length seed = l"
  then show ?thesis
    unfolding H_def Let_def slice_bin e by simp
qed

text \<open>
  Claim C10. For every seed of \<open>\<lambda>\<close> entries (whatever \<open>\<lambda>\<close> is set to), both generators
  return, and the first \<open>2 * (\<lambda> + 1)\<close> entries of \<open>H(seed)\<close> are \<open>G(seed)\<close>: both hash the
  same encoding of the seed, and \<open>H\<close> takes two more digits.
\<close>

theorem G_prefix_of_H:
  "length seed = l \<Longrightarrow>
     \<exists>g hs. G l h seed = Inr g \<and> H l h seed = Inr hs \<and> take (2 * (l + 1)) hs = g"
  by (simp add: G_unfold H_unfold take_map min_def)

lemma from_bytes_big_snoc: "from_bytes_big (r @ [b]) = 256 * from_bytes_big r + unat b"
  by (simp add: from_bytes_big_def)

lemma from_bytes_big_less: "from_bytes_big r < 2 ^ (8 * length r)"
proof (induction r rule: rev_induct)
  case Nil
  show ?case by (simp add: from_bytes_big_def)
next
  case (snoc b r)
  have "unat b < 256"
    using unsigned_less [of b, where ?'a = nat] by simp
  with snoc have "256 * from_bytes_big r + unat b < 256 * 2 ^ (8 * length r)"
    by simp
  then show ?case
    by (simp add: from_bytes_big_snoc power_add)
qed

lemma length_bin_digits: "0 < m \<Longrightarrow> k < 2 ^ m \<Longrightarrow> length (bin_digits k) \<le> m"
proof (induction k arbitrary: m rule: bin_digits.induct)
  case (1 k)
  show ?case
  proof (cases "k < 2")
    case True
    then show ?thesis using "1.prems" by (subst bin_digits.simps) simp
  next
    case False
    then obtain m' where m: "m = Suc m'" "0 < m'"
      using "1.prems" by (cases m; cases "m - 1") auto
    have "k div 2 < 2 ^ m'"
      using "1.prems" m by simp
    with "1.IH" [OF False m(2)] have "length (bin_digits (k div 2)) \<le> m'" .
    then show ?thesis
      using False m by (subst bin_digits.simps) simp
  qed
qed

lemma from_bytes_big_ones: "from_bytes_big (replicate k 255) = 2 ^ (8 * k) - 1"
proof (induction k)
  case 0
  show ?case by (simp add: from_bytes_big_def)
next
  case (Suc k)
  have "(1::nat) \<le> 2 ^ (8 * k)" by simp
  then have "256 * (2 ^ (8 * k) - 1) + 255 = (256 * 2 ^ (8 * k) - 1 :: nat)"
    by arith
  moreover have "replicate (Suc k) (255::u8) = replicate k 255 @ [255]"
    by (simp add: replicate_append_same)
  ultimately show ?case
    using Suc by (simp only: from_bytes_big_snoc) (simp add: power_add)
qed

lemma char_of_digit: "char_of (48::nat) = CHR ''0''" "char_of (49::nat) = CHR ''1''"
  by (simp_all add: char_of_def bit_0)

lemma int_of_char_char_of: "b < 2 \<Longrightarrow> int_of_char (char_of (48 + b)) = of_nat b"
  by (simp add: int_of_char_def)

lemma bin_digits_ones: "0 < m \<Longrightarrow> bin_digits (2 ^ m - 1) = replicate m (CHR ''1'')"
proof (induction m)
  case 0
  then show ?case by simp
next
  case (Suc m)
  show ?case
  proof (cases "m = 0")
    case True
    then show ?thesis by (subst bin_digits.simps) (simp add: char_of_digit)
  next
    case False
    then have m: "0 < m" by simp
    have ge: "(2::nat) \<le> 2 ^ m"
      using m by (cases m) simp_all
    then have k: "\<not> (2 ^ Suc m - 1 :: nat) < 2"
      by simp
    have d: "(2 ^ Suc m - 1 :: nat) div 2 = 2 ^ m - 1"
      using ge by (simp; arith)
    have o: "(2 ^ Suc m - 1 :: nat) mod 2 = 1"
      using ge by (simp; presburger)
    have "bin_digits (2 ^ Suc m - 1) = bin_digits (2 ^ m - 1) @ [char_of (48 + (1::nat))]"
      using k by (subst bin_digits.simps) (simp only: d o if_False)
    then show ?thesis
      using Suc.IH [OF m] by (simp add: replicate_append_same char_of_digit)
  qed
qed

lemma int_of_char_digit [simp]: "int_of_char (CHR ''1'') = 1" "int_of_char (CHR ''0'') = 0"
  by (simp_all add: int_of_char_def)

lemma G_all_ones:
  "length seed = l \<Longrightarrow> G l (\<lambda>_. replicate 32 255) seed = Inr (replicate (min (2 * (l + 1)) 256) 1)"
  using bin_digits_ones [of 256]
  by (simp add: G_unfold from_bytes_big_ones)

lemma H_all_ones:
  "length seed = l \<Longrightarrow> H l (\<lambda>_. replicate 32 255) seed = Inr (replicate (min (2 + 2 * (l + 1)) 256) 1)"
  using bin_digits_ones [of 256]
  by (simp add: H_unfold from_bytes_big_ones)

theorem G_prefix_of_H_witness:
  "length (replicate lam (0::u8)) = lam
   \<and> (\<exists>g hs. G lam (\<lambda>_. replicate 32 255) (replicate lam 0) = Inr g
         \<and> H lam (\<lambda>_. replicate 32 255) (replicate lam 0) = Inr hs
         \<and> take (2 * (lam + 1)) hs = g)"
  using G_prefix_of_H [of "replicate lam 0" lam "\<lambda>_. replicate 32 255"]
  by simp

text \<open>
  Claim C7, as the code has it. Neither generator checks the requested width, and neither
  raises on a seed of \<open>\<lambda>\<close> entries, whatever \<open>\<lambda>\<close> is. \<open>G\<close> returns the first \<open>2 * (\<lambda> + 1)\<close>
  and \<open>H\<close> the first \<open>2 * (\<lambda> + 2)\<close> binary digits of the digest read as a big-endian number
  and printed by \<open>bin\<close>. A digest of 32 bytes has at most 256 digits, so both outputs have
  at most 256 entries; when the requested count exceeds 256 the output is all the digits
  of the digest and is shorter than requested.
\<close>

theorem PRG_no_width_guard:
  assumes "length seed = l" and "length (h (str_list seed)) = 32"
  shows "\<exists>g hs. G l h seed = Inr g \<and> H l h seed = Inr hs
           \<and> g = map int_of_char (take (2 * (l + 1)) (bin_digits (from_bytes_big (h (str_list seed)))))
           \<and> hs = map int_of_char (take (2 * (l + 2)) (bin_digits (from_bytes_big (h (str_list seed)))))
           \<and> length g \<le> 256 \<and> length hs \<le> 256
           \<and> (256 < 2 * (l + 1) \<longrightarrow>
                 g = map int_of_char (bin_digits (from_bytes_big (h (str_list seed)))) \<and> length g < 2 * (l + 1))
           \<and> (256 < 2 * (l + 2) \<longrightarrow>
                 hs = map int_of_char (bin_digits (from_bytes_big (h (str_list seed)))) \<and> length hs < 2 * (l + 2))"
proof -
  have "from_bytes_big (h (str_list seed)) < 2 ^ 256"
    using from_bytes_big_less [of "h (str_list seed)"] assms(2) by simp
  then have "length (bin_digits (from_bytes_big (h (str_list seed)))) \<le> 256"
    by (intro length_bin_digits) simp_all
  moreover have "2 + 2 * (l + 1) = 2 * (l + 2)"
    by simp
  ultimately show ?thesis
    using assms(1) by (simp add: G_unfold H_unfold min_def)
qed

theorem PRG_no_width_guard_witness:
  "length (replicate 128 (0::u8)) = 128
   \<and> length ((\<lambda>_. replicate 32 (255::u8)) (str_list (replicate 128 0))) = 32
   \<and> (256::nat) < 2 * (128 + 1)
   \<and> (256::nat) < 2 * (128 + 2)
   \<and> (\<exists>g hs. G 128 (\<lambda>_. replicate 32 255) (replicate 128 0) = Inr g
         \<and> H 128 (\<lambda>_. replicate 32 255) (replicate 128 0) = Inr hs
         \<and> g = map int_of_char (bin_digits (from_bytes_big (replicate 32 255)))
         \<and> hs = map int_of_char (bin_digits (from_bytes_big (replicate 32 255)))
         \<and> length g \<le> 256 \<and> length hs \<le> 256
         \<and> length g < 2 * (128 + 1) \<and> length hs < 2 * (128 + 2))"
  using PRG_no_width_guard [of "replicate 128 0" 128 "\<lambda>_. replicate 32 255"]
  by (simp add: min_def split: if_splits)

text \<open>
  Claim C7 as stated fails: with \<open>\<lambda> = 128\<close> the requested counts 258 and 260 exceed 256,
  and on a digest of 32 bytes \<open>0xff\<close> both generators return 256 entries instead of
  raising.
\<close>

theorem PRG_width_not_guarded:
  "(256::nat) < 2 * (128 + 1)
   \<and> G 128 (\<lambda>_. replicate 32 255) (replicate 128 0) = Inr (replicate 256 1)
   \<and> (256::nat) < 2 * (128 + 2)
   \<and> H 128 (\<lambda>_. replicate 32 255) (replicate 128 0) = Inr (replicate 256 1)"
  by (simp add: G_all_ones H_all_ones)

lemma rev_upt_Suc: "rev [0..<Suc m] = map Suc (rev [0..<m]) @ [0]"
proof -
  have "[0..<Suc m] = 0 # map Suc [0..<m]"
    by (simp only: map_Suc_upt upt_conv_Cons [of 0 "Suc m"] zero_less_Suc)
  then show ?thesis
    by (simp only: rev.simps rev_map)
qed

lemma bits_of_Suc: "bits_of (Suc m) k = bits_of m (k div 2) @ [if odd k then 1 else 0]"
  unfolding bits_of_def rev_upt_Suc by (simp add: bit_Suc bit_0 comp_def)

lemma bits_of_0 [simp]: "bits_of 0 k = []"
  by (simp add: bits_of_def)

lemma length_bits_of [simp]: "length (bits_of m k) = m"
  by (simp add: bits_of_def)

lemma bin_digits_bits_of:
  "0 < m \<Longrightarrow> 2 ^ (m - 1) \<le> k \<Longrightarrow> k < 2 ^ m \<Longrightarrow> map int_of_char (bin_digits k) = bits_of m k"
proof (induction m arbitrary: k)
  case 0
  then show ?case by simp
next
  case (Suc m)
  show ?case
  proof (cases "m = 0")
    case True
    with Suc.prems have "k = 1" by simp
    then show ?thesis
      using True by (subst bin_digits.simps) (simp add: bits_of_Suc int_of_char_char_of [of 1, simplified])
  next
    case False
    then have m: "0 < m" by simp
    then have "(2::nat) \<le> 2 ^ m"
      by (cases m) simp_all
    with Suc.prems have k2: "\<not> k < 2" by simp
    have lo: "2 ^ (m - 1) \<le> k div 2"
    proof -
      have "2 * 2 ^ (m - 1) = (2::nat) ^ m"
        using m by (cases m) simp_all
      with Suc.prems(2) show ?thesis by simp
    qed
    have hi: "k div 2 < 2 ^ m"
      using Suc.prems(3) by simp
    have "map int_of_char (bin_digits k)
        = map int_of_char (bin_digits (k div 2)) @ [int_of_char (char_of (48 + k mod 2))]"
      using k2 by (subst bin_digits.simps) simp
    also have "\<dots> = bits_of m (k div 2) @ [of_nat (k mod 2)]"
      by (simp only: Suc.IH [OF m lo hi] int_of_char_char_of [of "k mod 2", simplified])
    also have "\<dots> = bits_of (Suc m) k"
      by (simp add: bits_of_Suc mod_2_eq_odd)
    finally show ?thesis .
  qed
qed

lemma bits_of_shift:
  "c < 2 ^ j \<Longrightarrow> bits_of (m + j) (2 ^ j * K + c) = bits_of m K @ bits_of j c"
proof (induction j arbitrary: c)
  case 0
  then show ?case by simp
next
  case (Suc j)
  have c2: "c div 2 < 2 ^ j"
    using Suc.prems by simp
  have d: "(2 ^ Suc j * K + c) div 2 = 2 ^ j * K + c div 2"
    by simp
  have o: "odd (2 ^ Suc j * K + c) = odd c"
    by simp
  have "bits_of (m + Suc j) (2 ^ Suc j * K + c)
      = bits_of (m + j) (2 ^ j * K + c div 2) @ [if odd c then 1 else 0]"
    by (simp only: add_Suc_right bits_of_Suc d o)
  also have "\<dots> = bits_of m K @ (bits_of j (c div 2) @ [if odd c then 1 else 0])"
    by (simp only: Suc.IH [OF c2] append_assoc)
  also have "\<dots> = bits_of m K @ bits_of (Suc j) c"
    by (simp only: bits_of_Suc)
  finally show ?case .
qed

lemma bits_of_byte: "bits_of 8 (unat (b::u8)) = byte_bits b"
  by (simp add: bits_of_def byte_bits_def bit_unsigned_iff)

lemma digest_bits_snoc: "digest_bits (r @ [b]) = digest_bits r @ byte_bits b"
  by (simp add: digest_bits_def)

lemma digest_bits_bits_of: "digest_bits r = bits_of (8 * length r) (from_bytes_big r)"
proof (induction r rule: rev_induct)
  case Nil
  show ?case by (simp add: digest_bits_def from_bytes_big_def)
next
  case (snoc b r)
  have "unat b < 2 ^ 8"
    using unsigned_less [of b, where ?'a = nat] by simp
  then have "bits_of (8 * length r + 8) (2 ^ 8 * from_bytes_big r + unat b)
           = bits_of (8 * length r) (from_bytes_big r) @ bits_of 8 (unat b)"
    by (rule bits_of_shift)
  then show ?case
    by (simp add: digest_bits_snoc from_bytes_big_snoc snoc.IH bits_of_byte add.commute)
qed

lemma from_bytes_big_Cons:
  "from_bytes_big (b # bs) = unat b * 256 ^ length bs + from_bytes_big bs"
proof (induction bs rule: rev_induct)
  case Nil
  show ?case by (simp add: from_bytes_big_def)
next
  case (snoc c bs)
  have "from_bytes_big (b # bs @ [c]) = 256 * from_bytes_big (b # bs) + unat c"
    using from_bytes_big_snoc [of "b # bs" c] by simp
  then show ?case
    by (simp add: snoc.IH from_bytes_big_snoc algebra_simps)
qed

lemma bit7_ge_128: "bit (b::u8) 7 \<Longrightarrow> 128 \<le> unat b"
proof (rule ccontr)
  assume b7: "bit b 7" and "\<not> 128 \<le> unat b"
  then have "unat b div 2 ^ 7 = 0"
    by simp
  then have "\<not> bit (unat b) 7"
    by (simp only: bit_nat_def) simp
  with b7 show False
    by (simp add: bit_unsigned_iff)
qed

lemma bin_digits_bit_set: "set (map int_of_char (bin_digits k)) \<subseteq> {0, 1}"
proof (induction k rule: bin_digits.induct)
  case (1 k)
  show ?case
  proof (cases "k < 2")
    case True
    then have "k = 0 \<or> k = 1" by arith
    then show ?thesis
      by (subst bin_digits.simps) (auto simp add: int_of_char_char_of [of 0, simplified] int_of_char_char_of [of 1, simplified])
  next
    case False
    have "int_of_char (char_of (48 + k mod 2)) = of_nat (k mod 2)"
      by (rule int_of_char_char_of) simp
    moreover have "k mod 2 = 0 \<or> k mod 2 = 1" by arith
    ultimately have "int_of_char (char_of (48 + k mod 2)) \<in> {0, 1}"
      by auto
    with "1.IH" [OF False] False show ?thesis
      by (subst bin_digits.simps) simp
  qed
qed

lemma hd_bin_digits: "0 < k \<Longrightarrow> bin_digits k \<noteq> [] \<and> hd (bin_digits k) = CHR ''1''"
proof (induction k rule: bin_digits.induct)
  case (1 k)
  show ?case
  proof (cases "k < 2")
    case True
    with "1.prems" have "k = 1" by simp
    then show ?thesis
      by (subst (1 2) bin_digits.simps) (simp add: char_of_digit)
  next
    case False
    then have "0 < k div 2" by simp
    with "1.IH" [OF False] have "bin_digits (k div 2) \<noteq> [] \<and> hd (bin_digits (k div 2)) = CHR ''1''" .
    with False show ?thesis
      by (subst (1 2) bin_digits.simps) simp
  qed
qed

text \<open>
  For every seed of \<open>\<lambda>\<close> entries, \<open>G\<close> returns at most \<open>2 * (\<lambda> + 1)\<close> entries, each 0 or 1.
  When the digest has 32 bytes and its most significant bit is set, these are exactly
  \<open>2 * (\<lambda> + 1)\<close> entries and they are the leading \<open>2 * (\<lambda> + 1)\<close> bits of the digest: on such
  digests the code does what the slice is written for.
\<close>

lemma G_output:
  assumes "length seed = lam"
  shows "\<exists>g. G lam h seed = Inr g \<and> length g \<le> 2 * (lam + 1) \<and> set g \<subseteq> {0, 1}
          \<and> (length (h (str_list seed)) = 32 \<and> bit (hd (h (str_list seed))) 7
               \<longrightarrow> length g = 2 * (lam + 1)
                 \<and> g = take (2 * (lam + 1)) (digest_bits (h (str_list seed))))"
proof -
  define r where "r = h (str_list seed)"
  define g where "g = map int_of_char (take (2 * (lam + 1)) (bin_digits (from_bytes_big r)))"
  have G: "G lam h seed = Inr g"
    using assms by (simp add: G_unfold g_def r_def)
  have len: "length g \<le> 2 * (lam + 1)"
    by (simp add: g_def)
  have "set g \<subseteq> set (map int_of_char (bin_digits (from_bytes_big r)))"
    unfolding g_def by (simp only: take_map [symmetric] set_take_subset)
  then have bits: "set g \<subseteq> {0, 1}"
    using bin_digits_bit_set [of "from_bytes_big r"] by (rule subset_trans)
  have top: "length g = 2 * (lam + 1) \<and> g = take (2 * (lam + 1)) (digest_bits r)"
    if l: "length r = 32" and b: "bit (hd r) 7"
  proof -
    from l obtain b0 bs where r: "r = b0 # bs" and bs: "length bs = 31"
      by (cases r) auto
    have "128 * 256 ^ 31 \<le> unat b0 * 256 ^ length bs"
      using bit7_ge_128 [of b0] b r bs by simp
    then have lo: "2 ^ (256 - 1) \<le> from_bytes_big r"
      by (simp add: r from_bytes_big_Cons)
    have hi: "from_bytes_big r < 2 ^ 256"
      using from_bytes_big_less [of r] l by simp
    have "map int_of_char (bin_digits (from_bytes_big r)) = bits_of 256 (from_bytes_big r)"
      using lo hi by (intro bin_digits_bits_of) simp_all
    also have "\<dots> = digest_bits r"
      using l by (simp add: digest_bits_bits_of)
    finally have m: "map int_of_char (bin_digits (from_bytes_big r)) = digest_bits r" .
    have e: "g = take (2 * (lam + 1)) (digest_bits r)"
      unfolding g_def take_map [symmetric] m ..
    have "length (digest_bits r) = 256"
      using l by (simp add: digest_bits_bits_of)
    with e show ?thesis
      by (simp add: lam_def)
  qed
  from G len bits top show ?thesis
    unfolding r_def by blast
qed

lemma hd_byte_bits: "hd (byte_bits b) = (if bit b 7 then 1 else 0)"
  by (simp add: byte_bits_def numeral_eq_Suc)

lemma hd_digest_bits_take:
  "0 < w \<Longrightarrow> hd (take w (digest_bits (b # bs))) = (if bit b 7 then 1 else 0)"
proof -
  assume w: "0 < w"
  have ne: "byte_bits b \<noteq> []"
    by (simp add: byte_bits_def)
  have "hd (take w (digest_bits (b # bs))) = hd (digest_bits (b # bs))"
    using w by (simp add: hd_take)
  also have "\<dots> = hd (byte_bits b)"
    using ne by (simp add: digest_bits_def)
  finally show ?thesis
    by (simp only: hd_byte_bits)
qed

lemma hd_G_digits:
  "0 < w \<Longrightarrow> 0 < k \<Longrightarrow> hd (map int_of_char (take w (bin_digits k))) = 1"
proof -
  assume w: "0 < w" and k: "0 < k"
  from hd_bin_digits [OF k] have ne: "bin_digits k \<noteq> []" and h1: "hd (bin_digits k) = CHR ''1''"
    by simp_all
  from ne w have "take w (bin_digits k) \<noteq> []"
    by (cases "bin_digits k") simp_all
  then have "hd (map int_of_char (take w (bin_digits k))) = int_of_char (hd (take w (bin_digits k)))"
    by (rule hd_map)
  also have "hd (take w (bin_digits k)) = hd (bin_digits k)"
    using w by (simp add: hd_take)
  finally show ?thesis
    by (simp add: h1)
qed

lemma from_bytes_big_Nil: "from_bytes_big [] = 0"
  by (simp add: from_bytes_big_def)

lemma bits_of_Suc_hd: "bits_of (Suc m) k = (if bit k m then 1 else 0) # bits_of m k"
  by (simp add: bits_of_def)

text \<open>
  Claim C6: the code departs from the claim when the digest begins with a zero bit.
  \<open>bin\<close> prints the number without its leading zeros, so the slice starts at the first 1
  bit of the digest instead of at its first bit. The SHA3-256 digest of the encoding of
  the seed \<open>0, 1, 0, 1, ...\<close> of 110 entries is \<open>7412f365...9a95dacc\<close>, whose first bit is 0:
  on it \<open>G\<close> returns the bits 1 to 222 of the digest, not the leading bits 0 to 221.
\<close>

theorem G_not_leading_bits:
  "length (concat (replicate 55 [0, 1 :: u8])) = lam
   \<and> G lam (\<lambda>_. [116, 18, 243, 101, 113, 7, 17, 136, 126, 230, 234, 3, 120, 126, 253, 71, 39, 237, 175, 125, 27, 30, 214, 56, 32, 160, 87, 86, 154, 149, 218, 204])
        (concat (replicate 55 [0, 1]))
      = Inr (take (2 * (lam + 1)) (drop 1 (digest_bits [116, 18, 243, 101, 113, 7, 17, 136, 126, 230, 234, 3, 120, 126, 253, 71, 39, 237, 175, 125, 27, 30, 214, 56, 32, 160, 87, 86, 154, 149, 218, 204])))
   \<and> G lam (\<lambda>_. [116, 18, 243, 101, 113, 7, 17, 136, 126, 230, 234, 3, 120, 126, 253, 71, 39, 237, 175, 125, 27, 30, 214, 56, 32, 160, 87, 86, 154, 149, 218, 204])
        (concat (replicate 55 [0, 1]))
      \<noteq> Inr (take (2 * (lam + 1)) (digest_bits [116, 18, 243, 101, 113, 7, 17, 136, 126, 230, 234, 3, 120, 126, 253, 71, 39, 237, 175, 125, 27, 30, 214, 56, 32, 160, 87, 86, 154, 149, 218, 204]))"
proof -
  define d :: "u8 list" where "d = [116, 18, 243, 101, 113, 7, 17, 136, 126, 230, 234, 3, 120, 126, 253, 71, 39, 237, 175, 125, 27, 30, 214, 56, 32, 160, 87, 86, 154, 149, 218, 204]"
  define k where "k = from_bytes_big d"
  have len: "length (concat (replicate 55 [0, 1 :: u8])) = lam"
    by (simp add: length_concat sum_list_replicate lam_def)
  have ld: "length d = 32"
    by (simp add: d_def)
  have lo: "2 ^ (255 - 1) \<le> k" and hi: "k < 2 ^ 255"
    by (simp_all add: k_def d_def from_bytes_big_Cons from_bytes_big_Nil)
  have m: "map int_of_char (bin_digits k) = bits_of 255 k"
    using lo hi by (intro bin_digits_bits_of) simp_all
  have "k div 2 ^ 255 = 0"
    using hi by simp
  then have nb: "\<not> bit k 255"
    by (simp only: bit_nat_def) simp
  have "digest_bits d = bits_of (Suc 255) k"
    using ld by (simp add: digest_bits_bits_of k_def)
  also have "\<dots> = 0 # bits_of 255 k"
    using nb by (simp only: bits_of_Suc_hd if_False)
  finally have db: "digest_bits d = 0 # bits_of 255 k" .
  have tm: "map int_of_char (take (2 * (lam + 1)) (bin_digits k)) = take (2 * (lam + 1)) (bits_of 255 k)"
    by (simp only: m [symmetric] take_map)
  have "G lam (\<lambda>_. d) (concat (replicate 55 [0, 1]))
      = Inr (map int_of_char (take (2 * (lam + 1)) (bin_digits k)))"
    unfolding k_def using len by (rule G_unfold)
  then have g: "G lam (\<lambda>_. d) (concat (replicate 55 [0, 1])) = Inr (take (2 * (lam + 1)) (bits_of 255 k))"
    by (simp only: tm)
  have k0: "0 < k"
    using lo by simp
  have "hd (map int_of_char (take (2 * (lam + 1)) (bin_digits k))) = (1::u8)"
    using k0 by (intro hd_G_digits) simp_all
  then have h1: "hd (take (2 * (lam + 1)) (bits_of 255 k)) = (1::u8)"
    by (simp only: tm)
  have "hd (take (2 * (lam + 1)) (digest_bits d)) = (0::u8)"
    unfolding db by simp
  with h1 have ne: "take (2 * (lam + 1)) (bits_of 255 k) \<noteq> take (2 * (lam + 1)) (digest_bits d)"
    by (metis zero_neq_one)
  have dr: "drop 1 (digest_bits d) = bits_of 255 k"
    unfolding db by simp
  from len g ne dr show ?thesis
    unfolding d_def [symmetric] by simp
qed


subsection \<open>Distributed point function\<close>

lemma bindE_simps [simp]: "bindE (Inr v) f = f v" "bindE (Inl e) f = Inl e"
  by (simp_all add: bindE_def)

lemma bindE_InrE:
  assumes "bindE m f = Inr y"
  obtains v where "m = Inr v" and "f v = Inr y"
  using assms by (cases m) simp_all

lemma split_Inr_iff: "split x idx = Inr p \<longleftrightarrow> sum_list idx = length x \<and> p = chunks x idx"
  by (auto simp add: split_def)

lemma txor_same: "length a = length b \<Longrightarrow> txor a b = Inr (map2 (XOR) a b)"
  by (simp add: txor_def)

lemma reshape2_Inr_iff: "reshape2 v w = Inr rows \<longleftrightarrow> length v = 2 * w \<and> rows = [take w v, drop w v]"
  by (auto simp add: reshape2_def)

lemma nth_err_rows:
  "a = 0 \<or> a = 1 \<Longrightarrow> nth_err [take w v, drop w v] (unat (a::u8)) = Inr (pick a w v)"
  by (auto simp add: nth_err_def pick_def)

lemma length_dpf_s_rand:
  "length g0 = 2 * (lam + 1) \<Longrightarrow> length g1 = 2 * (lam + 1) \<Longrightarrow> length (dpf_s_rand a g0 g1) = lam"
  by (simp add: dpf_s_rand_def smul_def)

lemma length_dpf_table: "length s = lam \<Longrightarrow> length (dpf_table a s) = 2 * (lam + 1)"
  by (simp add: dpf_table_def)

lemma length_dpf_CW:
  "length g0 = 2 * (lam + 1) \<Longrightarrow> length g1 = 2 * (lam + 1) \<Longrightarrow> length (dpf_CW a g0 g1) = 2 * (lam + 1)"
  by (simp add: dpf_CW_def length_dpf_table length_dpf_s_rand)

lemma TruthTableDPF_closed:
  "length s = lam \<Longrightarrow> a = 0 \<or> a = 1 \<Longrightarrow> TruthTableDPF s a = Inr (dpf_table a s)"
  by (auto simp add: TruthTableDPF_def dpf_table_def)

lemma length_tau_of: "length g = length CW \<Longrightarrow> length (tau_of g t CW) = length g"
  by (simp add: tau_of_def smul_def)

lemma length_pick: "length v = 2 * w \<Longrightarrow> length (pick a w v) = w"
  by (simp add: pick_def)

lemma split_row:
  "length row = lam + 1 \<Longrightarrow> split row [lam, 1] = Inr [take lam row, [row ! lam]]"
proof -
  assume l: "length row = lam + 1"
  then have "drop lam row = [row ! lam]"
    by (metis Cons_nth_drop_Suc drop_all le_refl lessI Suc_eq_plus1)
  with l show ?thesis
    by (simp add: split_def)
qed

lemma dpf_eval_step_closed:
  assumes "G lam h s = Inr g" and "length g = 2 * (lam + 1)" and "length CW = 2 * (lam + 1)"
    and "x = 0 \<or> x = 1"
  shows "dpf_eval_step h x CW (s, t) = Inr (dpf_next_s x g t CW, dpf_next_t x g t CW)"
proof -
  have lt: "length (smul t CW) = length g"
    using assms by (simp add: smul_def)
  have tx: "txor g (smul t CW) = Inr (tau_of g t CW)"
    using lt by (simp add: txor_same tau_of_def)
  have ltau: "length (tau_of g t CW) = 2 * (lam + 1)"
    using assms by (simp add: length_tau_of)
  have rs: "reshape2 (tau_of g t CW) (lam + 1)
      = Inr [take (lam + 1) (tau_of g t CW), drop (lam + 1) (tau_of g t CW)]"
    using ltau by (simp add: reshape2_def)
  have lp: "length (pick x (lam + 1) (tau_of g t CW)) = lam + 1"
    using ltau by (simp add: length_pick)
  have "dpf_eval_step h x CW (s, t)
      = bindE (split (pick x (lam + 1) (tau_of g t CW)) [lam, 1])
          (\<lambda>q. case q of [s', [t']] \<Rightarrow> Inr (s', t') | _ \<Rightarrow> Inl ValueError)"
    by (simp only: dpf_eval_step_def prod.case assms(1) bindE_simps tx rs
        nth_err_rows [OF assms(4)])
  also have "\<dots> = Inr (dpf_next_s x g t CW, dpf_next_t x g t CW)"
    by (simp only: split_row [OF lp] bindE_simps list.case dpf_next_s_def dpf_next_t_def)
  finally show ?thesis .
qed

lemma TruthTableDPF_bad:
  "length s = lam \<Longrightarrow> a \<noteq> 0 \<Longrightarrow> a \<noteq> 1 \<Longrightarrow> TruthTableDPF s a = Inl IndexError"
  by (simp add: TruthTableDPF_def)

lemma split4:
  "length g = 2 * (lam + 1) \<Longrightarrow>
     split g [lam, 1, lam, 1]
       = Inr [take lam g, take 1 (drop lam g), take lam (drop (lam + 1) g),
              take 1 (drop (lam + 1 + lam) g)]"
  by (simp add: split_def add.commute add.left_commute)

lemma split4_bad: "length g \<noteq> 2 * (lam + 1) \<Longrightarrow> split g [lam, 1, lam, 1] = Inl RuntimeError"
  by (auto simp add: split_def)

lemma dpf_keygen_step_good:
  assumes g: "G lam h s0 = Inr g0" "G lam h s1 = Inr g1"
    and l: "length g0 = 2 * (lam + 1)" "length g1 = 2 * (lam + 1)"
    and a: "a = 0 \<or> a = 1"
  shows "dpf_keygen_step h a (s0, s1, t0, t1) = Inr (dpf_step_result a g0 g1 t0 t1)"
proof -
  define CW where "CW = dpf_CW a g0 g1"
  have lL: "length (take lam g0) = length (take lam g1)"
    and lR: "length (take lam (drop (lam + 1) g0)) = length (take lam (drop (lam + 1) g1))"
    using l by simp_all
  have ls: "length (dpf_s_rand a g0 g1) = lam"
    using l by (rule length_dpf_s_rand)
  have lt: "length (dpf_table a (dpf_s_rand a g0 g1)) = length g0"
    using l ls by (simp add: length_dpf_table)
  have lc: "length (map2 (XOR) (dpf_table a (dpf_s_rand a g0 g1)) g0) = length g1"
    using l lt by simp
  have lCW: "length CW = 2 * (lam + 1)"
    unfolding CW_def using l by (rule length_dpf_CW)
  have l0: "length g0 = length (smul t0 CW)" and l1: "length g1 = length (smul t1 CW)"
    using l lCW by (simp_all add: smul_def)
  have lt0: "length (tau_of g0 t0 CW) = 2 * (lam + 1)"
    and lt1: "length (tau_of g1 t1 CW) = 2 * (lam + 1)"
    using l lCW by (simp_all add: length_tau_of)
  have lp0: "length (pick a (lam + 1) (tau_of g0 t0 CW)) = lam + 1"
    and lp1: "length (pick a (lam + 1) (tau_of g1 t1 CW)) = lam + 1"
    using lt0 lt1 by (simp_all add: length_pick)
  have rs0: "reshape2 (map2 (XOR) g0 (smul t0 CW)) (lam + 1)
      = Inr [take (lam + 1) (tau_of g0 t0 CW), drop (lam + 1) (tau_of g0 t0 CW)]"
    and rs1: "reshape2 (map2 (XOR) g1 (smul t1 CW)) (lam + 1)
      = Inr [take (lam + 1) (tau_of g1 t1 CW), drop (lam + 1) (tau_of g1 t1 CW)]"
    using lt0 lt1 by (simp_all add: reshape2_def tau_of_def)
  have cw: "map2 (XOR) (map2 (XOR) (dpf_table a (dpf_s_rand a g0 g1)) g0) g1 = CW"
    by (simp only: CW_def dpf_CW_def)
  have sr: "map2 (+) (smul a (map2 (XOR) (take lam g0) (take lam g1)))
       (smul (1 - a) (map2 (XOR) (take lam (drop (lam + 1) g0)) (take lam (drop (lam + 1) g1))))
      = dpf_s_rand a g0 g1"
    by (simp only: dpf_s_rand_def)
  show ?thesis
    by (simp only: dpf_keygen_step_def prod.case g bindE_simps split4 [OF l(1)] split4 [OF l(2)]
        list.case txor_same [OF lL] txor_same [OF lR] Let_def sr
        TruthTableDPF_closed [OF ls a] txor_same [OF lt] txor_same [OF lc] cw
        txor_same [OF l0] txor_same [OF l1] rs0 rs1 nth_err_rows [OF a]
        split_row [OF lp0] split_row [OF lp1] dpf_step_result_def dpf_next_s_def dpf_next_t_def
        CW_def [symmetric])
qed

lemma dpf_keygen_step_bad:
  assumes "\<not> (\<exists>g0 g1. G lam h s0 = Inr g0 \<and> G lam h s1 = Inr g1
      \<and> length g0 = 2 * (lam + 1) \<and> length g1 = 2 * (lam + 1) \<and> (a = 0 \<or> a = 1))"
  shows "\<exists>e. dpf_keygen_step h a (s0, s1, t0, t1) = Inl e"
proof (cases "G lam h s0")
  case (Inl e)
  then show ?thesis by (simp only: dpf_keygen_step_def prod.case bindE_simps) blast
next
  case g0: (Inr g0)
  show ?thesis
  proof (cases "G lam h s1")
    case (Inl e)
    then show ?thesis by (simp only: dpf_keygen_step_def prod.case g0 bindE_simps) blast
  next
    case g1: (Inr g1)
    show ?thesis
    proof (cases "length g0 = 2 * (lam + 1)")
      case False
      then have "split g0 [lam, 1, lam, 1] = Inl RuntimeError"
        by (rule split4_bad)
      then show ?thesis
        by (simp only: dpf_keygen_step_def prod.case g0 g1 bindE_simps) blast
    next
      case l0: True
      show ?thesis
      proof (cases "length g1 = 2 * (lam + 1)")
        case False
        then have "split g1 [lam, 1, lam, 1] = Inl RuntimeError"
          by (rule split4_bad)
        then show ?thesis
          by (simp only: dpf_keygen_step_def prod.case g0 g1 bindE_simps split4 [OF l0]) blast
      next
        case l1: True
        with assms g0 g1 l0 have a: "a \<noteq> 0" "a \<noteq> 1" by auto
        have lL: "length (take lam g0) = length (take lam g1)"
          and lR: "length (take lam (drop (lam + 1) g0)) = length (take lam (drop (lam + 1) g1))"
          using l0 l1 by simp_all
        have sr: "map2 (+) (smul a (map2 (XOR) (take lam g0) (take lam g1)))
            (smul (1 - a) (map2 (XOR) (take lam (drop (lam + 1) g0)) (take lam (drop (lam + 1) g1))))
          = dpf_s_rand a g0 g1"
          by (simp only: dpf_s_rand_def)
        have ls: "length (dpf_s_rand a g0 g1) = lam"
          using l0 l1 by (rule length_dpf_s_rand)
        show ?thesis
          by (simp only: dpf_keygen_step_def prod.case g0 g1 bindE_simps split4 [OF l0]
              split4 [OF l1] list.case txor_same [OF lL] txor_same [OF lR] Let_def sr
              TruthTableDPF_bad [OF ls a]) blast
      qed
    qed
  qed
qed

lemma xor3_right:
  fixes t x y :: "u8 list"
  assumes "length t = length x" and "length x = length y"
  shows "map2 (XOR) y (map2 (XOR) (map2 (XOR) t x) y) = map2 (XOR) t x"
proof (rule nth_equalityI)
  show "length (map2 (XOR) y (map2 (XOR) (map2 (XOR) t x) y)) = length (map2 (XOR) t x)"
    using assms by simp
next
  fix i assume "i < length (map2 (XOR) y (map2 (XOR) (map2 (XOR) t x) y))"
  then have i: "i < length t" "i < length x" "i < length y"
    using assms by simp_all
  have "y ! i XOR ((t ! i XOR x ! i) XOR y ! i) = t ! i XOR x ! i"
    by (rule bit_eqI) (auto simp add: bit_xor_iff)
  with i show "map2 (XOR) y (map2 (XOR) (map2 (XOR) t x) y) ! i = map2 (XOR) t x ! i"
    by simp
qed

lemma xor3_left:
  fixes t x y :: "u8 list"
  assumes "length t = length x" and "length x = length y"
  shows "map2 (XOR) x (map2 (XOR) (map2 (XOR) t x) y) = map2 (XOR) t y"
proof (rule nth_equalityI)
  show "length (map2 (XOR) x (map2 (XOR) (map2 (XOR) t x) y)) = length (map2 (XOR) t y)"
    using assms by simp
next
  fix i assume "i < length (map2 (XOR) x (map2 (XOR) (map2 (XOR) t x) y))"
  then have i: "i < length t" "i < length x" "i < length y"
    using assms by simp_all
  have "x ! i XOR ((t ! i XOR x ! i) XOR y ! i) = t ! i XOR y ! i"
    by (rule bit_eqI) (auto simp add: bit_xor_iff)
  with i show "map2 (XOR) x (map2 (XOR) (map2 (XOR) t x) y) ! i = map2 (XOR) t y ! i"
    by simp
qed

lemma tau_of_0: "length g = length CW \<Longrightarrow> tau_of g 0 CW = g"
  by (rule nth_equalityI) (simp_all add: tau_of_def smul_def)

lemma tau_of_1: "tau_of g 1 CW = map2 (XOR) g CW"
  by (simp add: tau_of_def smul_def)

lemma pick_map2: "pick x w (map2 f u v) = map2 f (pick x w u) (pick x w v)"
  by (simp add: pick_def take_map take_zip drop_map drop_zip)

lemma map2_xor_zeros: "length v = w \<Longrightarrow> map2 (XOR) (replicate w 0) v = (v :: u8 list)"
  by (rule nth_equalityI) simp_all

lemma pick_table_other:
  "length s = lam \<Longrightarrow> a = 0 \<or> a = 1 \<Longrightarrow> x = 0 \<or> x = 1 \<Longrightarrow> x \<noteq> a
     \<Longrightarrow> pick x (lam + 1) (dpf_table a s) = replicate (lam + 1) 0"
  by (auto simp add: pick_def dpf_table_def)

lemma pick_table_same:
  "length s = lam \<Longrightarrow> a = 0 \<or> a = 1 \<Longrightarrow> pick a (lam + 1) (dpf_table a s) = s @ [1]"
  by (auto simp add: pick_def dpf_table_def)

lemma G_bits: "G l h s = Inr g \<Longrightarrow> set g \<subseteq> {0, 1}"
proof -
  assume g: "G l h s = Inr g"
  then have "length s = l"
    by (simp add: G_def split: if_splits)
  with g have "g = map int_of_char (take (2 * (l + 1)) (bin_digits (from_bytes_big (h (str_list s)))))"
    by (simp add: G_unfold)
  then have "set g \<subseteq> set (map int_of_char (bin_digits (from_bytes_big (h (str_list s)))))"
    by (simp only: take_map [symmetric] set_take_subset)
  then show ?thesis
    using bin_digits_bit_set [of "from_bytes_big (h (str_list s))"] by (rule subset_trans)
qed

lemma dpf_taus:
  assumes l: "length g0 = 2 * (lam + 1)" "length g1 = 2 * (lam + 1)"
    and CW: "CW = dpf_CW a g0 g1" and T: "T = dpf_table a (dpf_s_rand a g0 g1)"
  shows "tau_of g0 0 CW = g0" and "tau_of g1 1 CW = map2 (XOR) T g0"
    and "tau_of g1 0 CW = g1" and "tau_of g0 1 CW = map2 (XOR) T g1"
proof -
  have lT: "length T = length g0"
    unfolding T using l by (simp add: length_dpf_table length_dpf_s_rand)
  have lCW: "length CW = 2 * (lam + 1)"
    unfolding CW using l by (rule length_dpf_CW)
  show "tau_of g0 0 CW = g0" "tau_of g1 0 CW = g1"
    using l lCW by (simp_all add: tau_of_0)
  have e: "length g0 = length g1"
    using l by simp
  show "tau_of g1 1 CW = map2 (XOR) T g0"
    unfolding tau_of_1 CW dpf_CW_def T [symmetric] using lT e by (rule xor3_right)
  show "tau_of g0 1 CW = map2 (XOR) T g1"
    unfolding tau_of_1 CW dpf_CW_def T [symmetric] using lT e by (rule xor3_left)
qed

lemma dpf_off_path:
  assumes l: "length g0 = 2 * (lam + 1)" "length g1 = 2 * (lam + 1)"
    and a: "a = 0 \<or> a = 1" and x: "x = 0 \<or> x = 1" "x \<noteq> a"
    and t: "compl t0 t1" and CW: "CW = dpf_CW a g0 g1"
  shows "pick x (lam + 1) (tau_of g0 t0 CW) = pick x (lam + 1) (tau_of g1 t1 CW)"
proof -
  define T where "T = dpf_table a (dpf_s_rand a g0 g1)"
  note taus = dpf_taus [OF l CW T_def]
  have ls: "length (dpf_s_rand a g0 g1) = lam"
    using l by (rule length_dpf_s_rand)
  have z: "pick x (lam + 1) T = replicate (lam + 1) 0"
    unfolding T_def using ls a x by (rule pick_table_other)
  have p: "pick x (lam + 1) (map2 (XOR) T g) = pick x (lam + 1) g" if "length g = 2 * (lam + 1)" for g
  proof -
    have "length (pick x (lam + 1) g) = lam + 1"
      using that by (rule length_pick)
    then show ?thesis
      by (simp only: pick_map2 z map2_xor_zeros)
  qed
  from t consider "t0 = 0" "t1 = 1" | "t0 = 1" "t1 = 0"
    by (auto simp add: compl_def)
  then show ?thesis
  proof cases
    case 1
    then show ?thesis by (simp only: taus p [OF l(1)])
  next
    case 2
    then show ?thesis by (simp only: taus p [OF l(2)])
  qed
qed

lemma dpf_on_path_t:
  assumes l: "length g0 = 2 * (lam + 1)" "length g1 = 2 * (lam + 1)"
    and b: "set g0 \<subseteq> {0, 1}" "set g1 \<subseteq> {0, 1}"
    and a: "a = 0 \<or> a = 1" and t: "compl t0 t1" and CW: "CW = dpf_CW a g0 g1"
  shows "compl (dpf_next_t a g0 t0 CW) (dpf_next_t a g1 t1 CW)"
proof -
  define T where "T = dpf_table a (dpf_s_rand a g0 g1)"
  note taus = dpf_taus [OF l CW T_def]
  have ls: "length (dpf_s_rand a g0 g1) = lam"
    using l by (rule length_dpf_s_rand)
  have pT: "pick a (lam + 1) T = dpf_s_rand a g0 g1 @ [1]"
    unfolding T_def using ls a by (rule pick_table_same)
  have q: "pick a (lam + 1) (map2 (XOR) T g) ! lam = 1 XOR pick a (lam + 1) g ! lam"
    and u: "pick a (lam + 1) g ! lam = 0 \<or> pick a (lam + 1) g ! lam = 1"
    if "length g = 2 * (lam + 1)" "set g \<subseteq> {0, 1}" for g
  proof -
    have lp: "length (pick a (lam + 1) g) = lam + 1"
      using that(1) by (rule length_pick)
    have "pick a (lam + 1) (map2 (XOR) T g)
        = map2 (XOR) (dpf_s_rand a g0 g1 @ [1]) (pick a (lam + 1) g)"
      by (simp only: pick_map2 pT)
    then show "pick a (lam + 1) (map2 (XOR) T g) ! lam = 1 XOR pick a (lam + 1) g ! lam"
      using ls lp by (simp add: nth_append)
    have "set (pick a (lam + 1) g) \<subseteq> set g"
      by (simp add: pick_def set_take_subset set_drop_subset)
    moreover have "pick a (lam + 1) g ! lam \<in> set (pick a (lam + 1) g)"
      using lp by simp
    ultimately show "pick a (lam + 1) g ! lam = 0 \<or> pick a (lam + 1) g ! lam = 1"
      using that(2) by auto
  qed
  from t consider "t0 = 0" "t1 = 1" | "t0 = 1" "t1 = 0"
    by (auto simp add: compl_def)
  then show ?thesis
  proof cases
    case 1
    then show ?thesis
      using q [OF l(1) b(1)] u [OF l(1) b(1)]
      by (auto simp add: dpf_next_t_def taus compl_def)
  next
    case 2
    then show ?thesis
      using q [OF l(2) b(2)] u [OF l(2) b(2)]
      by (auto simp add: dpf_next_t_def taus compl_def)
  qed
qed

lemma nth_err_in: "i < length xs \<Longrightarrow> nth_err xs i = Inr (xs ! i)"
  by (simp add: nth_err_def)

lemma dpf_keygen_step_InrD:
  assumes "dpf_keygen_step h a (s0, s1, t0, t1) = Inr r"
  obtains g0 g1 where "G lam h s0 = Inr g0" and "G lam h s1 = Inr g1"
    and "length g0 = 2 * (lam + 1)" and "length g1 = 2 * (lam + 1)" and "a = 0 \<or> a = 1"
    and "r = dpf_step_result a g0 g1 t0 t1"
proof -
  have "\<exists>g0 g1. G lam h s0 = Inr g0 \<and> G lam h s1 = Inr g1
      \<and> length g0 = 2 * (lam + 1) \<and> length g1 = 2 * (lam + 1) \<and> (a = 0 \<or> a = 1)"
  proof (rule ccontr)
    assume "\<not> ?thesis"
    then obtain e where "dpf_keygen_step h a (s0, s1, t0, t1) = Inl e"
      using dpf_keygen_step_bad by blast
    with assms show False by simp
  qed
  then obtain g0 g1 where g: "G lam h s0 = Inr g0" "G lam h s1 = Inr g1"
    "length g0 = 2 * (lam + 1)" "length g1 = 2 * (lam + 1)" "a = 0 \<or> a = 1"
    by blast
  then have "dpf_keygen_step h a (s0, s1, t0, t1) = Inr (dpf_step_result a g0 g1 t0 t1)"
    by (rule dpf_keygen_step_good)
  with assms have "r = dpf_step_result a g0 g1 t0 t1"
    by simp
  with g that show ?thesis by blast
qed

lemma dpf_loop:
  assumes "dpf_keygen_loop h ab [k..<n] (s0, s1, t0, t1) = Inr (CWs, (s0n, s1n, t0n, t1n))"
    and "length pre = k" and "n \<le> length ab" and "n \<le> length xb" and "set xb \<subseteq> {0, 1}"
    and "compl t0 t1"
  shows "length CWs = n - k \<and> compl t0n t1n
     \<and> ((\<forall>j. k \<le> j \<and> j < n \<longrightarrow> xb ! j = ab ! j) \<longrightarrow>
          dpf_eval_loop h xb (pre @ CWs @ post) [k..<n] (s0, t0) = Inr (s0n, t0n)
        \<and> dpf_eval_loop h xb (pre @ CWs @ post) [k..<n] (s1, t1) = Inr (s1n, t1n))
     \<and> ((\<exists>j. k \<le> j \<and> j < n \<and> xb ! j \<noteq> ab ! j) \<longrightarrow>
          dpf_eval_loop h xb (pre @ CWs @ post) [k..<n] (s0, t0)
        = dpf_eval_loop h xb (pre @ CWs @ post) [k..<n] (s1, t1))"
  using assms
proof (induction "n - k" arbitrary: k pre s0 s1 t0 t1 CWs)
  case 0
  then have "[k..<n] = []" by simp
  with "0.prems"(1) have "CWs = []" "s0n = s0" "s1n = s1" "t0n = t0" "t1n = t1"
    by simp_all
  with 0 show ?case by auto
next
  case (Suc d)
  from Suc.hyps(2) have kn: "k < n" and d: "d = n - Suc k"
    by simp_all
  have upt: "[k..<n] = k # [Suc k..<n]"
    using kn by (rule upt_conv_Cons)
  define a where "a = ab ! k"
  define x where "x = xb ! k"
  have na: "nth_err ab k = Inr a" and nx: "nth_err xb k = Inr x"
    using kn Suc.prems(3,4) by (simp_all add: nth_err_in a_def x_def)
  have xbit: "x = 0 \<or> x = 1"
  proof -
    have "x \<in> set xb"
      using kn Suc.prems(4) by (simp add: x_def)
    with Suc.prems(5) show ?thesis by auto
  qed
  from Suc.prems(1) obtain CW_k st' CWs' where
    step: "dpf_keygen_step h a (s0, s1, t0, t1) = Inr (CW_k, st')"
    and rest: "dpf_keygen_loop h ab [Suc k..<n] st' = Inr (CWs', (s0n, s1n, t0n, t1n))"
    and CWs: "CWs = CW_k # CWs'"
    unfolding upt dpf_keygen_loop.simps na bindE_simps
    by (auto elim!: bindE_InrE split: prod.splits)
  from step obtain g0 g1 where g: "G lam h s0 = Inr g0" "G lam h s1 = Inr g1"
    and l: "length g0 = 2 * (lam + 1)" "length g1 = 2 * (lam + 1)" and abit: "a = 0 \<or> a = 1"
    and r: "(CW_k, st') = dpf_step_result a g0 g1 t0 t1"
    by (rule dpf_keygen_step_InrD)
  from r have CW_k: "CW_k = dpf_CW a g0 g1"
    and st': "st' = (dpf_next_s a g0 t0 CW_k, dpf_next_s a g1 t1 CW_k,
                    dpf_next_t a g0 t0 CW_k, dpf_next_t a g1 t1 CW_k)"
    by (simp_all add: dpf_step_result_def)
  have lCW: "length CW_k = 2 * (lam + 1)"
    unfolding CW_k using l by (rule length_dpf_CW)
  have t': "compl (dpf_next_t a g0 t0 CW_k) (dpf_next_t a g1 t1 CW_k)"
    using l G_bits [OF g(1)] G_bits [OF g(2)] abit Suc.prems(6) CW_k by (rule dpf_on_path_t)
  have all: "(pre @ [CW_k]) @ CWs' @ post = pre @ CWs @ post"
    by (simp add: CWs)
  note IH = Suc.hyps(1) [OF d rest [unfolded st'] _ Suc.prems(3,4,5) t', of "pre @ [CW_k]",
      unfolded all]
  have lpre: "length (pre @ [CW_k]) = Suc k"
    using Suc.prems(2) by simp
  note IH' = IH [OF lpre]
  have nc: "nth_err (pre @ CWs @ post) k = Inr CW_k"
    using Suc.prems(2) by (simp add: nth_err_def CWs nth_append)
  have ev: "dpf_eval_loop h xb (pre @ CWs @ post) [k..<n] (s, t)
      = bindE (dpf_eval_step h x CW_k (s, t)) (dpf_eval_loop h xb (pre @ CWs @ post) [Suc k..<n])"
    for s t
    by (simp only: upt dpf_eval_loop.simps nc nx bindE_simps)
  have es0: "dpf_eval_step h x CW_k (s0, t0) = Inr (dpf_next_s x g0 t0 CW_k, dpf_next_t x g0 t0 CW_k)"
    using g(1) l(1) lCW xbit by (rule dpf_eval_step_closed)
  have es1: "dpf_eval_step h x CW_k (s1, t1) = Inr (dpf_next_s x g1 t1 CW_k, dpf_next_t x g1 t1 CW_k)"
    using g(2) l(2) lCW xbit by (rule dpf_eval_step_closed)
  have len: "length CWs = n - k"
    using IH' kn by (simp add: CWs)
  show ?case
  proof (cases "x = a")
    case True
    have split_all: "(\<forall>j. k \<le> j \<and> j < n \<longrightarrow> xb ! j = ab ! j)
        \<longleftrightarrow> (\<forall>j. Suc k \<le> j \<and> j < n \<longrightarrow> xb ! j = ab ! j)"
      using True kn unfolding x_def a_def
      by (metis Suc_leD Suc_leI le_neq_implies_less)
    have split_ex: "(\<exists>j. k \<le> j \<and> j < n \<and> xb ! j \<noteq> ab ! j)
        \<longleftrightarrow> (\<exists>j. Suc k \<le> j \<and> j < n \<and> xb ! j \<noteq> ab ! j)"
      using True kn unfolding x_def a_def
      by (metis Suc_leD Suc_leI le_neq_implies_less)
    note steps = ev [unfolded True] es0 [unfolded True] es1 [unfolded True]
    show ?thesis
      unfolding split_all split_ex steps bindE_simps
      using IH' len by simp
  next
    case False
    then have ne: "\<not> (\<forall>j. k \<le> j \<and> j < n \<longrightarrow> xb ! j = ab ! j)"
      using kn unfolding x_def a_def by auto
    have "pick x (lam + 1) (tau_of g0 t0 CW_k) = pick x (lam + 1) (tau_of g1 t1 CW_k)"
      using l abit xbit False Suc.prems(6) CW_k by (rule dpf_off_path)
    then have "dpf_next_s x g0 t0 CW_k = dpf_next_s x g1 t1 CW_k"
      and "dpf_next_t x g0 t0 CW_k = dpf_next_t x g1 t1 CW_k"
      by (simp_all add: dpf_next_s_def dpf_next_t_def)
    then have eq: "dpf_eval_loop h xb (pre @ CWs @ post) [k..<n] (s0, t0)
        = dpf_eval_loop h xb (pre @ CWs @ post) [k..<n] (s1, t1)"
      by (simp only: ev es0 es1)
    from IH' have c: "compl t0n t1n" by simp
    from ne len c eq show ?thesis by blast
  qed
qed

lemma and_pow2: "(x::i64) AND 2 ^ i = (if bit x i then 2 ^ i else 0)"
  by (rule bit_word_eqI) (auto simp add: bit_and_iff bit_exp_iff)

lemma sint_pow2: "i < 63 \<Longrightarrow> sint ((2::i64) ^ i) = 2 ^ i"
proof -
  assume i: "i < 63"
  have "uint ((2::i64) ^ i) = 2 ^ i"
  proof (rule uint_2p)
    have "(2::i64) ^ i \<noteq> 0" using i by simp
    then show "(0::i64) < 2 ^ i" by (simp add: word_greater_zero_iff)
  qed
  moreover have "signed_take_bit 63 ((2::int) ^ i) = 2 ^ i"
  proof (rule signed_take_bit_int_eq_self)
    show "(2::int) ^ i < 2 ^ 63"
      using i by (intro power_strict_increasing) simp_all
    have "- ((2::int) ^ 63) \<le> 0" by simp
    also have "(0::int) \<le> 2 ^ i" by simp
    finally show "- ((2::int) ^ 63) \<le> 2 ^ i" .
  qed
  ultimately show ?thesis
    by (simp add: sint_uint)
qed

lemma bit_test: "i < 63 \<Longrightarrow> (0 < sint ((x::i64) AND 2 ^ i)) = bit x i"
  by (simp add: and_pow2 sint_pow2)

lemma bit_decomposition_eq:
  "bit_decomposition x = map (\<lambda>i. if bit x i then 1 else 0) (rev [0..<n_prec])"
  by (simp add: bit_decomposition_def bit_pow_n_def rev_map bit_test n_prec_def)

lemma length_bit_decomposition [simp]: "length (bit_decomposition x) = n_prec"
  by (simp add: bit_decomposition_eq)

lemma bit_decomposition_bits: "set (bit_decomposition x) \<subseteq> {0, 1}"
  by (auto simp add: bit_decomposition_eq)

lemma bit_decomposition_inj:
  assumes "x < 2 ^ n_prec" and "y < 2 ^ n_prec"
  shows "(\<forall>j. 0 \<le> j \<and> j < n_prec \<longrightarrow> bit_decomposition x ! j = bit_decomposition y ! j) \<longleftrightarrow> x = y"
proof
  assume eq: "\<forall>j. 0 \<le> j \<and> j < n_prec \<longrightarrow> bit_decomposition x ! j = bit_decomposition y ! j"
  have tb: "take_bit 32 x = x" "take_bit 32 y = y"
    using assms by (simp_all add: take_bit_eq_mask less_mask_eq n_prec_def)
  have "bit x i = bit y i" for i
  proof (cases "i < 32")
    case True
    then have j: "31 - i < n_prec" "n_prec - Suc (31 - i) = i"
      by (simp_all add: n_prec_def)
    from eq j(1) have "bit_decomposition x ! (31 - i) = bit_decomposition y ! (31 - i)"
      by blast
    with j show ?thesis
      by (simp add: bit_decomposition_eq rev_nth split: if_splits)
  next
    case False
    have "\<not> bit (take_bit 32 x) i" "\<not> bit (take_bit 32 y) i"
      using False by (simp_all add: bit_take_bit_iff)
    then show ?thesis by (simp only: tb)
  qed
  then show "x = y"
    by (rule bit_eqI)
qed simp

lemma G_InrD_length: "G l h s = Inr g \<Longrightarrow> length s = l"
  by (simp add: G_def split: if_splits)

lemma n_prec_pos: "0 < n_prec"
  by (simp add: n_prec_def)

lemma dpf_keygen_loop_seed_length:
  assumes "dpf_keygen_loop h ab [0..<n_prec] (s0, s1, t0, t1) = Inr r"
  shows "length s0 = lam \<and> length s1 = lam"
proof -
  have upt: "[0..<n_prec] = 0 # [Suc 0..<n_prec]"
    using n_prec_pos by (rule upt_conv_Cons)
  from assms obtain a r' where "dpf_keygen_step h a (s0, s1, t0, t1) = Inr r'"
    unfolding upt dpf_keygen_loop.simps by (auto elim!: bindE_InrE)
  then obtain g0 g1 where "G lam h s0 = Inr g0" "G lam h s1 = Inr g1"
    by (rule dpf_keygen_step_InrD)
  then show ?thesis
    by (simp add: G_InrD_length)
qed

lemma DPF_keygen_InrD:
  assumes "DPF_keygen h alpha s00 s01 = Inr (al, k00, k01, CW, CW_n)"
  obtains s0n s1n t0n t1n c0 c1 where "al = alpha" and "k00 = s00" and "k01 = s01"
    and "dpf_keygen_loop h (bit_decomposition alpha) [0..<n_prec] (s00, s01, 0, 1)
          = Inr (CW, (s0n, s1n, t0n, t1n))"
    and "Convert s0n = Inr c0" and "Convert s1n = Inr c1"
    and "CW_n = (- 1) ^ unat t1n * (1 - c0 + c1)"
  using assms unfolding DPF_keygen_def Let_def
  by (auto elim!: bindE_InrE split: prod.splits)

lemma set_row_same: "length v = w \<Longrightarrow> set_row w v = Inr v"
  by (simp add: set_row_def)

lemma dpf_eval_value_unfold:
  assumes "length k0 = lam" and "length CW = n_prec"
  shows "dpf_eval_value h b x k0 CW k2
     = bindE (dpf_eval_loop h (bit_decomposition x) (CW @ [[k2]]) [0..<n_prec] (k0, of_nat b))
         (\<lambda>(s_n, t_n). bindE (Convert s_n) (\<lambda>c. Inr [c + t_n * k2]))"
proof -
  have n: "nth_err (CW @ [[k2]]) n_prec = Inr [k2]"
    using nth_append_length [of CW "[k2]" "[]"] assms(2) by (simp add: nth_err_def)
  show ?thesis
    unfolding dpf_eval_value_def Let_def set_row_same [OF assms(1)] bindE_simps n
    by simp
qed

lemma unat_sum_mod: "(unat (a::u8) + unat b) mod 2 ^ 8 = unat (a + b)"
  by (simp add: unat_word_ariths)

lemma dpf_final_sum:
  fixes c0 c1 :: u8
  assumes "compl t0 t1"
  shows "(c0 + t0 * ((- 1) ^ unat t1 * (1 - c0 + c1)))
       + (- 1) ^ 1 * (c1 + t1 * ((- 1) ^ unat t1 * (1 - c0 + c1))) = 1"
  using assms unfolding compl_def by auto

text \<open>
  Claim C1, as the code has it. Let \<open>DPF.keygen\<close>, run with the point \<open>alpha\<close> in
  \<open>[0, M)\<close>, return the keys, and let the two evaluations at an input \<open>x\<close> in \<open>[0, M)\<close>
  return. Each evaluation is a \<open>uint8\<close> tensor with one entry, and the two entries sum to
  1 if \<open>x = alpha\<close> and to 0 otherwise modulo \<open>2 ^ 8\<close>, whatever the hash function is.
\<close>

theorem DPF_correct_mod_256:
  assumes kg: "DPF_keygen h alpha s_00 s_01 = Inr (al, k00, k01, CW, CW_n)"
    and alpha: "alpha < 2 ^ n_prec" and x: "x < 2 ^ n_prec"
    and e0: "DPF_eval h 0 x k00 CW CW_n = Inr y0"
    and e1: "DPF_eval h 1 x k01 CW CW_n = Inr y1"
  shows "\<exists>v0 v1. y0 = [v0] \<and> y1 = [v1]
           \<and> (unat v0 + unat v1) mod 2 ^ 8 = (if x = alpha then 1 else 0)"
proof -
  from kg obtain s0n s1n t0n t1n c0 c1 where k: "k00 = s_00" "k01 = s_01"
    and loop: "dpf_keygen_loop h (bit_decomposition alpha) [0..<n_prec] (s_00, s_01, 0, 1)
          = Inr (CW, (s0n, s1n, t0n, t1n))"
    and c: "Convert s0n = Inr c0" "Convert s1n = Inr c1"
    and CW_n: "CW_n = (- 1) ^ unat t1n * (1 - c0 + c1)"
    by (rule DPF_keygen_InrD)
  have ls: "length s_00 = lam" "length s_01 = lam"
    using dpf_keygen_loop_seed_length [OF loop] by simp_all
  have c01: "compl 0 1"
    by (simp add: compl_def)
  note L = dpf_loop [where pre = "[]" and xb = "bit_decomposition x" and post = "[[CW_n]]",
      OF loop _ _ _ bit_decomposition_bits c01, simplified]
  have lCW: "length CW = n_prec" and cn: "compl t0n t1n"
    using L by simp_all
  have v0: "dpf_eval_value h 0 x s_00 CW CW_n
      = bindE (dpf_eval_loop h (bit_decomposition x) (CW @ [[CW_n]]) [0..<n_prec] (s_00, 0))
          (\<lambda>(s_n, t_n). bindE (Convert s_n) (\<lambda>c. Inr [c + t_n * CW_n]))"
    using dpf_eval_value_unfold [OF ls(1) lCW, of h 0 x CW_n] by simp
  have v1: "dpf_eval_value h 1 x s_01 CW CW_n
      = bindE (dpf_eval_loop h (bit_decomposition x) (CW @ [[CW_n]]) [0..<n_prec] (s_01, 1))
          (\<lambda>(s_n, t_n). bindE (Convert s_n) (\<lambda>c. Inr [c + t_n * CW_n]))"
    using dpf_eval_value_unfold [OF ls(2) lCW, of h 1 x CW_n] by simp
  show ?thesis
  proof (cases "x = alpha")
    case True
    have "dpf_eval_loop h (bit_decomposition alpha) (CW @ [[CW_n]]) [0..<n_prec] (s_00, 0)
          = Inr (s0n, t0n)"
      and "dpf_eval_loop h (bit_decomposition alpha) (CW @ [[CW_n]]) [0..<n_prec] (s_01, 1)
          = Inr (s1n, t1n)"
      using L True by simp_all
    then have "dpf_eval_value h 0 x s_00 CW CW_n = Inr [c0 + t0n * CW_n]"
      and "dpf_eval_value h 1 x s_01 CW CW_n = Inr [c1 + t1n * CW_n]"
      using v0 v1 c True by simp_all
    with e0 e1 have y: "y0 = [c0 + t0n * CW_n]" "y1 = [(- 1) ^ 1 * (c1 + t1n * CW_n)]"
      by (simp_all add: DPF_eval_def k)
    have "unat ((c0 + t0n * CW_n) + (- 1) ^ 1 * (c1 + t1n * CW_n)) = 1"
      unfolding CW_n dpf_final_sum [OF cn] by simp
    with y True show ?thesis
      by (simp only: unat_sum_mod) simp
  next
    case False
    then have "\<exists>j. j < n_prec \<and> bit_decomposition x ! j \<noteq> bit_decomposition alpha ! j"
      using bit_decomposition_inj [OF x alpha] by auto
    then have "dpf_eval_loop h (bit_decomposition x) (CW @ [[CW_n]]) [0..<n_prec] (s_00, 0)
          = dpf_eval_loop h (bit_decomposition x) (CW @ [[CW_n]]) [0..<n_prec] (s_01, 1)"
      using L by simp
    then have same: "dpf_eval_value h 0 x s_00 CW CW_n = dpf_eval_value h 1 x s_01 CW CW_n"
      by (simp only: v0 v1)
    from e0 [unfolded DPF_eval_def k] obtain v
      where val: "dpf_eval_value h 0 x s_00 CW CW_n = Inr v"
        and r0: "Inr (map (\<lambda>w. (- 1) ^ (0::nat) * w) v) = (Inr y0 :: error + u8 list)"
      by (rule bindE_InrE)
    have val1: "dpf_eval_value h 1 x s_01 CW CW_n = Inr v"
      by (simp only: same [symmetric] val)
    from val obtain w where v: "v = [w]"
      unfolding v0 by (auto elim!: bindE_InrE split: prod.splits)
    from r0 have y0: "y0 = [w]"
      unfolding v by simp
    from e1 have y1: "y1 = [- w]"
      unfolding DPF_eval_def k val1 bindE_simps v by auto
    have "unat (w + - w) = 0"
      by simp
    with y0 y1 False show ?thesis
      by (simp only: unat_sum_mod) simp
  qed
qed

end
